theory Spec2Isabelle
  imports Main "HOL-Library.Sublist" "HOL-Library.Multiset" "HOL-Library.Word"
begin

unbundle bit_operations_syntax

section \<open>Data model\<close>

text \<open>
  Strings are byte strings (the UTF-8 encoding of the JavaScript string); the body of a
  downloaded file is the list of bytes of the \<^verbatim>\<open>arraybuffer\<close> response.
\<close>

type_synonym bytes = "8 word list"

text \<open>
  The command line as \<^verbatim>\<open>yargs\<close> hands it over (\<^verbatim>\<open>cli.js\<close>, lines 13 to 53):
  \<^verbatim>\<open>includeOnly\<close> has no default and may be undefined.
\<close>

record argv =
  token :: string
  hostUrl :: string
  projectId :: string
  branch :: string
  includeOnly :: "string option"
  dir :: string

text \<open>The process-wide constants of lines 55 to 61.\<close>

record config =
  GITLAB_HOST :: string
  TOKEN :: string
  PROJECT_ID :: string
  BRANCH :: string
  DOWNLOAD_DIR :: string
  INCLUDE_ONLY :: "string list"

text \<open>\<^verbatim>\<open>String.prototype.split\<close> with a one-character separator.\<close>

fun split :: "char \<Rightarrow> string \<Rightarrow> string list" where
  "split sep [] = [[]]"
| "split sep (c # cs) =
     (if c = sep then [] # split sep cs
      else (case split sep cs of
              [] \<Rightarrow> [[c]]
            | part # parts \<Rightarrow> (c # part) # parts))"

definition constants :: "argv \<Rightarrow> config" where
  "constants a =
     \<lparr> GITLAB_HOST = hostUrl a,
       TOKEN = token a,
       PROJECT_ID = projectId a,
       BRANCH = branch a,
       DOWNLOAD_DIR = dir a,
       INCLUDE_ONLY =
         (case includeOnly a of
            None \<Rightarrow> []
          | Some s \<Rightarrow> if s = [] then [] else split CHR '','' s) \<rparr>"

definition FOLDERS_TO_DOWNLOAD :: "string list" where
  "FOLDERS_TO_DOWNLOAD = [''proto'', ''build'']"

text \<open>One element of the array the repository-tree endpoint answers with.\<close>

record item =
  name :: string
  type :: string

text \<open>
  A JavaScript value as far as \<^verbatim>\<open>main\<close> looks at one: the two properties read from the
  cached JSON are compared with \<^verbatim>\<open>===\<close> against strings, so every value that is not a
  string behaves alike.
\<close>

datatype js_value = Undefined | Null | Str string | Other_value

text \<open>
  What \<^verbatim>\<open>fs.readJsonSync(COMMIT_FILE)\<close> yields: it throws (file missing or not JSON),
  or it returns the JSON value \<^verbatim>\<open>null\<close>, or any other JSON value, of which only the
  properties \<^verbatim>\<open>commit\<close> and \<^verbatim>\<open>argsHash\<close> are read (\<open>Undefined\<close> when it has none).
\<close>

datatype commit_file = Unreadable | Json_null | Json_props js_value js_value

text \<open>
  The collaborators of a run: the answers of the GitLab server (\<open>None\<close> when
  \<^verbatim>\<open>axios.get\<close> throws), whether \<^verbatim>\<open>fs.outputFile\<close> succeeds on a local path, the
  working directory, \<^verbatim>\<open>path.join\<close> of the platform, and the content of the cache file.
\<close>

record world =
  commit_response :: "string option"
  tree_response :: "string \<Rightarrow> item list option"
  raw_response :: "string \<Rightarrow> bytes option"
  outputFile_ok :: "string \<Rightarrow> bool"
  cwd :: string
  path_join :: "string list \<Rightarrow> string"
  COMMIT_FILE :: commit_file

section \<open>Observable behaviour\<close>

text \<open>
  Every remote call, local write and log line of the program is an event. The
  constructors are named after the call or the message of the source:
  \<^item> \<open>Log_starting\<close>, \<open>Log_filtering\<close>, \<open>Log_no_filter\<close>: the messages of lines 158 to 163;
  \<^item> \<open>Get_commit\<close>: the request of line 85; \<open>Err_commit\<close>: the error of line 90;
    \<open>Err_no_commit\<close>: the error of line 167;
  \<^item> \<open>Mkdirp_cache\<close>: line 171; \<open>Read_commit_file\<close>: line 175; \<open>Warn_first_run\<close>: the warning
    of line 177; \<open>Log_skip\<close>: the message of line 183;
  \<^item> \<open>Get_tree p\<close>: the request of line 101 for the folder \<open>p\<close>; \<open>Err_tree p\<close>: the error of
    line 107;
  \<^item> \<open>Get_file p\<close>: the request of line 118 for the file \<open>p\<close>; \<open>Output_file l d\<close>:
    \<^verbatim>\<open>fs.outputFile\<close> of line 123 writing \<open>d\<close> to the local path \<open>l\<close>; \<open>Log_downloaded l\<close>: the
    message of line 124; \<open>Err_download p\<close>: the error of line 126;
  \<^item> \<open>Log_ignoring p\<close>: the message of line 140;
  \<^item> \<open>Write_commit_file c a\<close>: \<^verbatim>\<open>fs.writeJsonSync\<close> of line 191 with commit \<open>c\<close> and hash
    \<open>a\<close>; \<open>Log_complete\<close>: the message of line 192;
  \<^item> \<open>Console_error\<close>: \<^verbatim>\<open>console.error\<close> of line 195, on a rejection of \<^verbatim>\<open>main\<close>.
\<close>

datatype event =
    Log_starting
  | Log_filtering
  | Log_no_filter
  | Get_commit
  | Err_commit
  | Err_no_commit
  | Mkdirp_cache
  | Read_commit_file
  | Warn_first_run
  | Log_skip
  | Get_tree string
  | Err_tree string
  | Get_file string
  | Output_file string bytes
  | Log_downloaded string
  | Err_download string
  | Log_ignoring string
  | Write_commit_file string string
  | Log_complete
  | Console_error

text \<open>
  The behaviour of an asynchronous function: one event, behaviours awaited one after
  the other (\<open>Seq\<close>), or promises started together and joined by \<^verbatim>\<open>Promise.all\<close>
  (\<open>Par\<close>).
\<close>

datatype act = Ev event | Seq "act list" | Par "act list"

text \<open>The events in program order (the schedule that runs each task to its end).\<close>

fun flat :: "act \<Rightarrow> event list" where
  "flat (Ev e) = [e]"
| "flat (Seq as) = concat (map flat as)"
| "flat (Par as) = concat (map flat as)"

fun seq_all :: "'a list set list \<Rightarrow> 'a list set" where
  "seq_all [] = {[]}"
| "seq_all (A # As) = (\<Union>x\<in>A. (\<lambda>y. x @ y) ` seq_all As)"

fun par_all :: "'a list set list \<Rightarrow> 'a list set" where
  "par_all [] = {[]}"
| "par_all (A # As) = (\<Union>x\<in>A. \<Union>y\<in>par_all As. shuffles x y)"

text \<open>
  The runs of a behaviour: the tasks of a \<open>Par\<close> interleave in any way that keeps each
  task's own order. (The event loop allows fewer interleavings, so what holds of every
  run here holds of every run of the program.)
\<close>

fun lin :: "act \<Rightarrow> event list set" where
  "lin (Ev e) = {[e]}"
| "lin (Seq as) = seq_all (map lin as)"
| "lin (Par as) = par_all (map lin as)"

section \<open>The filter\<close>

text \<open>\<^verbatim>\<open>String.prototype.includes\<close>: the search string occurs at some position.\<close>

fun includes_str :: "string \<Rightarrow> string \<Rightarrow> bool" where
  "includes_str [] accept = (accept = [])"
| "includes_str (c # cs) accept = (prefix accept (c # cs) \<or> includes_str cs accept)"

text \<open>Line 136: the path of a child under its folder (an empty string is falsy).\<close>

definition fullPath :: "string \<Rightarrow> item \<Rightarrow> string" where
  "fullPath folderPath item =
     (if folderPath \<noteq> [] then folderPath @ ''/'' @ name item else name item)"

text \<open>The condition of line 139, under which the child is logged as ignored.\<close>

definition ignored :: "config \<Rightarrow> item \<Rightarrow> string \<Rightarrow> bool" where
  "ignored cfg item p \<longleftrightarrow>
     length (INCLUDE_ONLY cfg) > 0 \<and> type item = ''tree'' \<and>
     \<not> list_ex (\<lambda>accept. includes_str p accept) (INCLUDE_ONLY cfg)"

section \<open>Remote calls\<close>

text \<open>
  Lines 82 to 93; \<open>None\<close> is the \<^verbatim>\<open>null\<close> of the catch branch. An answer that carries
  no id is falsy for \<^verbatim>\<open>main\<close>, like the empty id.
\<close>

definition fetchLatestCommitHash :: "world \<Rightarrow> string option \<times> act" where
  "fetchLatestCommitHash w =
     (case commit_response w of
        Some h \<Rightarrow> (Some h, Ev Get_commit)
      | None \<Rightarrow> (None, Seq [Ev Get_commit, Ev Err_commit]))"

text \<open>
  Lines 98 to 110. A successful answer is taken to be an array of items, as the endpoint
  documents it; the items are those of the single page the server returns.
\<close>

definition fetchTree :: "world \<Rightarrow> string \<Rightarrow> item list \<times> act" where
  "fetchTree w folderPath =
     (case tree_response w folderPath of
        Some items \<Rightarrow> (items, Ev (Get_tree folderPath))
      | None \<Rightarrow> ([], Seq [Ev (Get_tree folderPath), Ev (Err_tree folderPath)]))"

text \<open>Line 122.\<close>

definition localPath :: "config \<Rightarrow> world \<Rightarrow> string \<Rightarrow> string" where
  "localPath cfg w filePath = path_join w [cwd w, DOWNLOAD_DIR cfg, filePath]"

text \<open>
  Lines 115 to 128. The \<^verbatim>\<open>try\<close> block covers the request and the write; either
  failure ends in the same \<^verbatim>\<open>console.error\<close>.
\<close>

definition downloadFile :: "config \<Rightarrow> world \<Rightarrow> string \<Rightarrow> act" where
  "downloadFile cfg w filePath =
     (case raw_response w filePath of
        None \<Rightarrow> Seq [Ev (Get_file filePath), Ev (Err_download filePath)]
      | Some data \<Rightarrow>
          if outputFile_ok w (localPath cfg w filePath)
          then Seq [Ev (Get_file filePath),
                    Ev (Output_file (localPath cfg w filePath) data),
                    Ev (Log_downloaded (localPath cfg w filePath))]
          else Seq [Ev (Get_file filePath), Ev (Err_download filePath)])"

section \<open>Traversal\<close>

text \<open>
  The callback of \<^verbatim>\<open>items.map\<close> (lines 135 to 149), the same as the body of the
  \<^verbatim>\<open>for\<close> loop of the sequential variant; \<open>recurse\<close> is the recursive call of
  \<^verbatim>\<open>downloadFolder\<close>. An item that is neither blob nor tree does nothing.
\<close>

definition task :: "(string \<Rightarrow> act option) \<Rightarrow> config \<Rightarrow> world \<Rightarrow> string \<Rightarrow> item \<Rightarrow> act option" where
  "task recurse cfg w folderPath item =
     (if ignored cfg item (fullPath folderPath item)
      then Some (Ev (Log_ignoring (fullPath folderPath item)))
      else if type item = ''blob'' then Some (downloadFile cfg w (fullPath folderPath item))
      else if type item = ''tree'' then recurse (fullPath folderPath item)
      else Some (Seq []))"

text \<open>
  \<^verbatim>\<open>downloadFolder\<close> of lines 133 to 152. Nothing bounds the recursion but the
  server's answers, so the first argument counts the nesting still allowed and \<open>None\<close>
  says that it was used up.
\<close>

fun downloadFolder :: "nat \<Rightarrow> config \<Rightarrow> world \<Rightarrow> string \<Rightarrow> act option" where
  "downloadFolder 0 cfg w folderPath = None"
| "downloadFolder (Suc n) cfg w folderPath =
     (case fetchTree w folderPath of
        (items, listing) \<Rightarrow>
          map_option (\<lambda>downloadTasks. Seq [listing, Par downloadTasks])
            (those (map (task (downloadFolder n cfg w) cfg w folderPath) items)))"

text \<open>
  The sequential \<^verbatim>\<open>downloadFolder\<close> of lines 297 to 317. Its \<^verbatim>\<open>fetchTree\<close> and
  \<^verbatim>\<open>downloadFile\<close> are those of the parallel variant, but for the success message, logged
  with \<^verbatim>\<open>console.log\<close> instead of \<^verbatim>\<open>console.debug\<close>.
\<close>

fun downloadFolder_seq :: "nat \<Rightarrow> config \<Rightarrow> world \<Rightarrow> string \<Rightarrow> act option" where
  "downloadFolder_seq 0 cfg w folderPath = None"
| "downloadFolder_seq (Suc n) cfg w folderPath =
     (case fetchTree w folderPath of
        (items, listing) \<Rightarrow>
          map_option (\<lambda>steps. Seq [listing, Seq steps])
            (those (map (task (downloadFolder_seq n cfg w) cfg w folderPath) items)))"

section \<open>The configuration fingerprint\<close>

subsection \<open>SHA-256 (FIPS 180-4), as \<^verbatim>\<open>crypto.createHash('sha256')\<close> computes it\<close>

text \<open>
  The round constants and the initial hash value of the standard (the leading 32 bits of
  the fractional parts of the cube roots, and of the square roots, of the first primes),
  in decimal.
\<close>

definition K256 :: "32 word list" where
  "K256 = [
    1116352408, 1899447441, 3049323471, 3921009573, 961987163, 1508970993,
    2453635748, 2870763221, 3624381080, 310598401, 607225278, 1426881987,
    1925078388, 2162078206, 2614888103, 3248222580, 3835390401, 4022224774,
    264347078, 604807628, 770255983, 1249150122, 1555081692, 1996064986,
    2554220882, 2821834349, 2952996808, 3210313671, 3336571891, 3584528711,
    113926993, 338241895, 666307205, 773529912, 1294757372, 1396182291,
    1695183700, 1986661051, 2177026350, 2456956037, 2730485921, 2820302411,
    3259730800, 3345764771, 3516065817, 3600352804, 4094571909, 275423344,
    430227734, 506948616, 659060556, 883997877, 958139571, 1322822218,
    1537002063, 1747873779, 1955562222, 2024104815, 2227730452, 2361852424,
    2428436474, 2756734187, 3204031479, 3329325298]"

definition H256 :: "32 word list" where
  "H256 = [1779033703, 3144134277, 1013904242, 2773480762,
           1359893119, 2600822924, 528734635, 1541459225]"

definition rotr :: "nat \<Rightarrow> 32 word \<Rightarrow> 32 word" where
  "rotr n x = word_rotr n x"

definition Ch :: "32 word \<Rightarrow> 32 word \<Rightarrow> 32 word \<Rightarrow> 32 word" where
  "Ch x y z = (x AND y) XOR (NOT x AND z)"

definition Maj :: "32 word \<Rightarrow> 32 word \<Rightarrow> 32 word \<Rightarrow> 32 word" where
  "Maj x y z = (x AND y) XOR (x AND z) XOR (y AND z)"

definition Sigma0 :: "32 word \<Rightarrow> 32 word" where
  "Sigma0 x = rotr 2 x XOR rotr 13 x XOR rotr 22 x"

definition Sigma1 :: "32 word \<Rightarrow> 32 word" where
  "Sigma1 x = rotr 6 x XOR rotr 11 x XOR rotr 25 x"

definition sigma0 :: "32 word \<Rightarrow> 32 word" where
  "sigma0 x = rotr 7 x XOR rotr 18 x XOR drop_bit 3 x"

definition sigma1 :: "32 word \<Rightarrow> 32 word" where
  "sigma1 x = rotr 17 x XOR rotr 19 x XOR drop_bit 10 x"

text \<open>Padding: 0x80, zeros up to 56 modulo 64, then the bit length on 64 bits, big-endian.\<close>

definition pad :: "8 word list \<Rightarrow> 8 word list" where
  "pad m =
     m @ [0x80] @ replicate ((119 - length m mod 64) mod 64) 0 @
     map (\<lambda>i. ucast (drop_bit (8 * i) (word_of_nat (8 * length m) :: 64 word)))
       [7, 6, 5, 4, 3, 2, 1, 0]"

fun words32 :: "8 word list \<Rightarrow> 32 word list" where
  "words32 (a # b # c # d # bs) =
     (push_bit 24 (ucast a) OR push_bit 16 (ucast b) OR push_bit 8 (ucast c) OR ucast d)
       # words32 bs"
| "words32 bs = []"

fun blocks :: "32 word list \<Rightarrow> 32 word list list" where
  "blocks [] = []"
| "blocks ws = take 16 ws # blocks (drop 16 ws)"

text \<open>The message schedule, newest word first.\<close>

fun schedule :: "nat \<Rightarrow> 32 word list \<Rightarrow> 32 word list" where
  "schedule 0 ws = ws"
| "schedule (Suc n) ws =
     schedule n ((sigma1 (ws ! 1) + ws ! 6 + sigma0 (ws ! 14) + ws ! 15) # ws)"

definition round256 :: "32 word list \<Rightarrow> 32 word \<times> 32 word \<Rightarrow> 32 word list" where
  "round256 s kw =
     (case s of
        [a, b, c, d, e, f, g, h] \<Rightarrow>
          (let t1 = h + Sigma1 e + Ch e f g + fst kw + snd kw;
               t2 = Sigma0 a + Maj a b c
           in [t1 + t2, a, b, c, d + t1, e, f, g])
      | _ \<Rightarrow> s)"

definition compress :: "32 word list \<Rightarrow> 32 word list \<Rightarrow> 32 word list" where
  "compress hs block =
     map2 (+) hs (foldl round256 hs (zip K256 (rev (schedule 48 (rev block)))))"

definition hex_digit :: "nat \<Rightarrow> char" where
  "hex_digit n = ''0123456789abcdef'' ! (n mod 16)"

definition hex32 :: "32 word \<Rightarrow> string" where
  "hex32 x = map (\<lambda>i. hex_digit (unat (drop_bit i x AND 15))) [28, 24, 20, 16, 12, 8, 4, 0]"

text \<open>\<^verbatim>\<open>createHash('sha256').update(s).digest('hex')\<close>.\<close>

definition sha256_hex :: "string \<Rightarrow> string" where
  "sha256_hex s =
     concat (map hex32 (foldl compress H256 (blocks (words32 (pad (map of_char s))))))"

subsection \<open>\<^verbatim>\<open>JSON.stringify\<close> of the four constants\<close>

text \<open>One character of a string, as \<^verbatim>\<open>JSON.stringify\<close> writes it between the quotes.\<close>

definition json_char :: "char \<Rightarrow> string" where
  "json_char c =
     (if c = CHR 0x22 then [CHR 0x5C, CHR 0x22]
      else if c = CHR 0x5C then [CHR 0x5C, CHR 0x5C]
      else if c = CHR 0x08 then [CHR 0x5C, CHR ''b'']
      else if c = CHR 0x0C then [CHR 0x5C, CHR ''f'']
      else if c = CHR 0x0A then [CHR 0x5C, CHR ''n'']
      else if c = CHR 0x0D then [CHR 0x5C, CHR ''r'']
      else if c = CHR 0x09 then [CHR 0x5C, CHR ''t'']
      else if (of_char c :: nat) < 32
        then [CHR 0x5C, CHR ''u'', CHR ''0'', CHR ''0'',
              hex_digit (of_char c div 16), hex_digit (of_char c)]
      else [c])"

definition json_string :: "string \<Rightarrow> string" where
  "json_string s = CHR 0x22 # concat (map json_char s) @ [CHR 0x22]"

fun json_elements :: "string list \<Rightarrow> string" where
  "json_elements [] = []"
| "json_elements [s] = json_string s"
| "json_elements (s # ss) = json_string s @ '','' @ json_elements ss"

definition json_key :: "string \<Rightarrow> string" where
  "json_key k = json_string k @ '':''"

text \<open>Lines 69 to 74.\<close>

definition argsString :: "config \<Rightarrow> string" where
  "argsString cfg =
     ''{'' @ json_key ''PROJECT_ID'' @ json_string (PROJECT_ID cfg) @
     '','' @ json_key ''BRANCH'' @ json_string (BRANCH cfg) @
     '','' @ json_key ''INCLUDE_ONLY'' @ ''['' @ json_elements (INCLUDE_ONLY cfg) @ '']'' @
     '','' @ json_key ''DOWNLOAD_DIR'' @ json_string (DOWNLOAD_DIR cfg) @ ''}''"

text \<open>Lines 68 to 77.\<close>

definition generateArgsHash :: "config \<Rightarrow> string" where
  "generateArgsHash cfg = sha256_hex (argsString cfg)"

section \<open>The run\<close>

text \<open>
  How \<^verbatim>\<open>main\<close> ends: at one of its three \<^verbatim>\<open>return\<close> points, or by throwing (its
  promise rejects).
\<close>

datatype ending = No_commit | Skipped | Complete | Threw

record run =
  ending :: ending
  behaviour :: act
  commit_file_after :: commit_file

text \<open>
  The test of line 182 on the values read from the cache file; the strings are the
  latest commit and the current hash.
\<close>

definition unchanged :: "string \<Rightarrow> string \<Rightarrow> js_value \<Rightarrow> js_value \<Rightarrow> bool" where
  "unchanged latestCommitHash currentArgsHash cachedCommit cachedArgsHash \<longleftrightarrow>
     Str latestCommitHash = cachedCommit \<and> Str currentArgsHash = cachedArgsHash"

text \<open>Lines 158 to 163.\<close>

definition banner :: "config \<Rightarrow> act" where
  "banner cfg =
     Seq [Ev Log_starting,
          if length (INCLUDE_ONLY cfg) > 0 then Ev Log_filtering else Ev Log_no_filter]"

text \<open>Lines 173 to 178: the read of the cache file, with \<open>{}\<close> when it throws.\<close>

definition readCache :: "world \<Rightarrow> commit_file \<times> act" where
  "readCache w =
     (case COMMIT_FILE w of
        Unreadable \<Rightarrow> (Json_props Undefined Undefined, Seq [Ev Read_commit_file, Ev Warn_first_run])
      | cachedData \<Rightarrow> (cachedData, Ev Read_commit_file))"

text \<open>
  \<^verbatim>\<open>main\<close>, lines 157 to 193. The first argument bounds the nesting of each root folder's
  traversal. Destructuring \<^verbatim>\<open>null\<close> (line 181) throws a TypeError; this is the last
  case below, since \<open>readCache\<close> never yields \<open>Unreadable\<close>. The cache directory and the
  final write of the cache file are taken to succeed.
\<close>

definition main :: "nat \<Rightarrow> config \<Rightarrow> world \<Rightarrow> run option" where
  "main fuel cfg w =
     (case fetchLatestCommitHash w of
        (latestCommitHash, lookup) \<Rightarrow>
          (case latestCommitHash of
             None \<Rightarrow>
               Some \<lparr> ending = No_commit,
                      behaviour = Seq [banner cfg, lookup, Ev Err_no_commit],
                      commit_file_after = COMMIT_FILE w \<rparr>
           | Some h \<Rightarrow>
               if h = [] then
                 Some \<lparr> ending = No_commit,
                        behaviour = Seq [banner cfg, lookup, Ev Err_no_commit],
                        commit_file_after = COMMIT_FILE w \<rparr>
               else
                 (case readCache w of
                    (cachedData, reading) \<Rightarrow>
                      (case cachedData of
                         Json_props cachedCommit cachedArgsHash \<Rightarrow>
                           if unchanged h (generateArgsHash cfg) cachedCommit cachedArgsHash then
                             Some \<lparr> ending = Skipped,
                                    behaviour =
                                      Seq [banner cfg, lookup, Ev Mkdirp_cache, reading, Ev Log_skip],
                                    commit_file_after = COMMIT_FILE w \<rparr>
                           else
                             map_option
                               (\<lambda>folders.
                                  \<lparr> ending = Complete,
                                    behaviour =
                                      Seq [banner cfg, lookup, Ev Mkdirp_cache, reading, Seq folders,
                                           Ev (Write_commit_file h (generateArgsHash cfg)),
                                           Ev Log_complete],
                                    commit_file_after =
                                      Json_props (Str h) (Str (generateArgsHash cfg)) \<rparr>)
                               (those (map (downloadFolder fuel cfg w) FOLDERS_TO_DOWNLOAD))
                       | _ \<Rightarrow>
                           Some \<lparr> ending = Threw,
                                  behaviour = Seq [banner cfg, lookup, Ev Mkdirp_cache, reading],
                                  commit_file_after = COMMIT_FILE w \<rparr>))))"

text \<open>
  Line 195, \<^verbatim>\<open>main().catch(console.error)\<close>, and the exit status of the process. A
  rejection is logged; nothing sets \<^verbatim>\<open>process.exitCode\<close> or calls \<^verbatim>\<open>process.exit\<close>, so the
  process ends with status 0 once the promise has settled.
\<close>

definition script :: "nat \<Rightarrow> config \<Rightarrow> world \<Rightarrow> (nat \<times> run) option" where
  "script fuel cfg w =
     map_option
       (\<lambda>r. if ending r = Threw
            then (0, r\<lparr>behaviour := Seq [behaviour r, Ev Console_error]\<rparr>)
            else (0, r))
       (main fuel cfg w)"

text \<open>
  \<^verbatim>\<open>main\<close> of the sequential variant (lines 322 to 338), which has no commit lookup and no
  cache.
\<close>

definition main_seq :: "nat \<Rightarrow> config \<Rightarrow> world \<Rightarrow> act option" where
  "main_seq fuel cfg w =
     map_option (\<lambda>folders. Seq [banner cfg, Seq folders, Ev Log_complete])
       (those (map (downloadFolder_seq fuel cfg w) FOLDERS_TO_DOWNLOAD))"

section \<open>Notions used to state the properties\<close>

text \<open>
  The filter predicate in the words of the design: with no term configured every path
  passes, otherwise a path passes when some term occurs in it as a contiguous substring.
\<close>

definition shouldDescend :: "string \<Rightarrow> string list \<Rightarrow> bool" where
  "shouldDescend p filterConfig \<longleftrightarrow> filterConfig = [] \<or> list_ex (\<lambda>accept. sublist accept p) filterConfig"

text \<open>The same world, except that the request for the file (or the listing) of \<open>p\<close> fails.\<close>

definition fail_file :: "string \<Rightarrow> world \<Rightarrow> world" where
  "fail_file p w = w\<lparr>raw_response := (raw_response w)(p := None)\<rparr>"

definition fail_tree :: "string \<Rightarrow> world \<Rightarrow> world" where
  "fail_tree p w = w\<lparr>tree_response := (tree_response w)(p := None)\<rparr>"

text \<open>The events that stand for a remote listing, a remote file request and a local write.\<close>

fun remote_call :: "event \<Rightarrow> bool" where
  "remote_call (Get_tree p) = True"
| "remote_call (Get_file p) = True"
| "remote_call e = False"

fun file_write :: "event \<Rightarrow> bool" where
  "file_write (Output_file p d) = True"
| "file_write e = False"

fun cache_write :: "event \<Rightarrow> bool" where
  "cache_write (Write_commit_file c a) = True"
| "cache_write e = False"

fun ignoring :: "event \<Rightarrow> bool" where
  "ignoring (Log_ignoring p) = True"
| "ignoring e = False"

text \<open>The files a run has written, as pairs of local path and content.\<close>

definition written :: "event list \<Rightarrow> (string \<times> bytes) set" where
  "written t = {(p, d). Output_file p d \<in> set t}"

text \<open>
  How the events \<open>t'\<close> of a traversal in which the request for the file \<open>p\<close> fails relate
  to the events \<open>t\<close> of the traversal in which it does not: the same remote calls, nothing
  new but the error, nothing lost but the write and the success message of \<open>p\<close>.
\<close>

definition file_gone :: "config \<Rightarrow> world \<Rightarrow> string \<Rightarrow> event list \<Rightarrow> event list \<Rightarrow> bool" where
  "file_gone cfg w p t t' \<longleftrightarrow>
     filter remote_call t' = filter remote_call t \<and>
     set t' \<subseteq> set t \<union> {Err_download p} \<and>
     (\<forall>e \<in> set t. e \<in> set t' \<or> (\<exists>d. e = Output_file (localPath cfg w p) d) \<or>
        e = Log_downloaded (localPath cfg w p))"

text \<open>
  How the behaviour \<open>a'\<close> of a traversal in which the listing of the folder \<open>p\<close> fails
  relates to the behaviour \<open>a\<close> of the traversal in which it does not.
\<close>

definition subtree_gone :: "config \<Rightarrow> world \<Rightarrow> string \<Rightarrow> act \<Rightarrow> act \<Rightarrow> bool" where
  "subtree_gone cfg w p a a' \<longleftrightarrow>
     set (flat a') \<subseteq> set (flat a) \<union> {Err_tree p} \<and>
     (Get_tree p \<notin> set (flat a) \<longrightarrow> a' = a) \<and>
     (\<forall>m b. downloadFolder m cfg w p = Some b \<longrightarrow> set (flat a) \<subseteq> set (flat a') \<union> set (flat b))"

text \<open>The same behaviour with every task awaited before the next one starts.\<close>

fun sequential :: "act \<Rightarrow> act" where
  "sequential (Ev e) = Ev e"
| "sequential (Seq as) = Seq (map sequential as)"
| "sequential (Par as) = Seq (map sequential as)"

subsection \<open>A small repository for concrete instances\<close>

fun join_slash :: "string list \<Rightarrow> string" where
  "join_slash [] = []"
| "join_slash [s] = s"
| "join_slash (s # ss) = s @ ''/'' @ join_slash ss"

definition example_config :: config where
  "example_config =
     \<lparr> GITLAB_HOST = ''https://gitlab.example'', TOKEN = ''secret'', PROJECT_ID = ''42'',
       BRANCH = ''master'', DOWNLOAD_DIR = ''out'', INCLUDE_ONLY = [''docs''] \<rparr>"

text \<open>
  \<^verbatim>\<open>proto\<close> holds the folders \<^verbatim>\<open>docs\<close> (two files, the first of which cannot be fetched) and
  \<^verbatim>\<open>other\<close> and the file \<^verbatim>\<open>a.proto\<close>; the listing of \<^verbatim>\<open>build\<close> fails; there is no cache file.
\<close>

definition example_world :: world where
  "example_world =
     \<lparr> commit_response = Some ''abc'',
       tree_response =
         (\<lambda>p. if p = ''proto'' then
                Some [\<lparr>name = ''docs'', type = ''tree''\<rparr>, \<lparr>name = ''a.proto'', type = ''blob''\<rparr>,
                      \<lparr>name = ''other'', type = ''tree''\<rparr>]
              else if p = ''proto/docs'' then
                Some [\<lparr>name = ''x.txt'', type = ''blob''\<rparr>, \<lparr>name = ''y.txt'', type = ''blob''\<rparr>]
              else if p = ''build'' then None
              else Some []),
       raw_response = (\<lambda>p. if p = ''proto/docs/x.txt'' then None else Some [1, 2, 3]),
       outputFile_ok = (\<lambda>p. True),
       cwd = ''/home'',
       path_join = (\<lambda>ps. join_slash (filter (\<lambda>s. s \<noteq> []) ps)),
       COMMIT_FILE = Unreadable \<rparr>"

section \<open>Runs of a behaviour\<close>

lemma append_in_shuffles: "xs @ ys \<in> shuffles xs ys"
  by (induction xs) (auto intro: Cons_in_shuffles_leftI)

lemma concat_in_seq_all:
  "list_all2 (\<lambda>x A. x \<in> A) xs As \<Longrightarrow> concat xs \<in> seq_all As"
  by (induction xs As rule: list_all2_induct) auto

lemma concat_in_par_all:
  "list_all2 (\<lambda>x A. x \<in> A) xs As \<Longrightarrow> concat xs \<in> par_all As"
  by (induction xs As rule: list_all2_induct) (auto intro: append_in_shuffles)

lemma seq_all_cases:
  "t \<in> seq_all As \<Longrightarrow> \<exists>xs. list_all2 (\<lambda>x A. x \<in> A) xs As \<and> t = concat xs"
proof (induction As arbitrary: t)
  case Nil
  then show ?case by simp
next
  case (Cons A As)
  then obtain x y where xy: "x \<in> A" "y \<in> seq_all As" "t = x @ y" by auto
  from Cons.IH [OF xy(2)] obtain ys where "list_all2 (\<lambda>x A. x \<in> A) ys As" "y = concat ys"
    by blast
  with xy show ?case by (intro exI [of _ "x # ys"]) simp
qed

lemma par_all_cases:
  "t \<in> par_all As \<Longrightarrow> \<exists>xs. list_all2 (\<lambda>x A. x \<in> A) xs As \<and> mset t = mset (concat xs)"
proof (induction As arbitrary: t)
  case Nil
  then show ?case by simp
next
  case (Cons A As)
  then obtain x y where xy: "x \<in> A" "y \<in> par_all As" "t \<in> shuffles x y" by auto
  from Cons.IH [OF xy(2)] obtain ys where "list_all2 (\<lambda>x A. x \<in> A) ys As" "mset y = mset (concat ys)"
    by blast
  with xy show ?case by (intro exI [of _ "x # ys"]) (simp add: mset_shuffles)
qed

lemma flat_in_lin: "flat a \<in> lin a"
proof (induction a)
  case (Ev e)
  show ?case by simp
next
  case (Seq as)
  then have "list_all2 (\<lambda>x A. x \<in> A) (map flat as) (map lin as)"
    by (simp add: list_all2_conv_all_nth)
  then show ?case by (simp add: concat_in_seq_all)
next
  case (Par as)
  then have "list_all2 (\<lambda>x A. x \<in> A) (map flat as) (map lin as)"
    by (simp add: list_all2_conv_all_nth)
  then show ?case by (simp add: concat_in_par_all)
qed

lemma mset_concat_cong:
  "list_all2 (\<lambda>x y. mset x = mset y) xs ys \<Longrightarrow> mset (concat xs) = mset (concat ys)"
  by (induction xs ys rule: list_all2_induct) auto

lemma lin_mset: "t \<in> lin a \<Longrightarrow> mset t = mset (flat a)"
proof (induction a arbitrary: t)
  case (Ev e)
  then show ?case by simp
next
  case (Seq as)
  then obtain xs where xs: "list_all2 (\<lambda>x A. x \<in> A) xs (map lin as)" "t = concat xs"
    using seq_all_cases by fastforce
  have "list_all2 (\<lambda>x y. mset x = mset y) xs (map flat as)"
    using xs(1) Seq.IH by (auto simp: list_all2_conv_all_nth)
  then show ?case using xs(2) by (simp add: mset_concat_cong)
next
  case (Par as)
  then obtain xs where xs: "list_all2 (\<lambda>x A. x \<in> A) xs (map lin as)" "mset t = mset (concat xs)"
    using par_all_cases by fastforce
  have "list_all2 (\<lambda>x y. mset x = mset y) xs (map flat as)"
    using xs(1) Par.IH by (auto simp: list_all2_conv_all_nth)
  then show ?case using xs(2) by (simp add: mset_concat_cong)
qed

lemma lin_set: "t \<in> lin a \<Longrightarrow> set t = set (flat a)"
  by (metis lin_mset set_mset_mset)

lemma lin_Seq_Nil: "lin (Seq []) = {[]}"
  by simp

lemma lin_Seq_Cons: "t \<in> lin (Seq (a # as)) \<longleftrightarrow> (\<exists>x \<in> lin a. \<exists>y \<in> lin (Seq as). t = x @ y)"
  by auto

lemma seq_all_singletons: "seq_all (map (\<lambda>x. {f x}) xs) = {concat (map f xs)}"
  by (induction xs) auto

lemma lin_sequential: "lin (sequential a) = {flat a}"
proof (induction a)
  case (Ev e)
  show ?case by simp
next
  case (Seq as)
  then have "map (lin \<circ> sequential) as = map (\<lambda>x. {flat x}) as" by simp
  then have "seq_all (map (lin \<circ> sequential) as) = seq_all (map (\<lambda>x. {flat x}) as)"
    by (rule arg_cong)
  then show ?case by (simp add: seq_all_singletons)
next
  case (Par as)
  then have "map (lin \<circ> sequential) as = map (\<lambda>x. {flat x}) as" by simp
  then have "seq_all (map (lin \<circ> sequential) as) = seq_all (map (\<lambda>x. {flat x}) as)"
    by (rule arg_cong)
  then show ?case by (simp add: seq_all_singletons)
qed

section \<open>Lists of results\<close>

lemma those_map_Some:
  "those (map f xs) = Some ys \<longleftrightarrow> list_all2 (\<lambda>x y. f x = Some y) xs ys"
proof (induction xs arbitrary: ys)
  case Nil
  show ?case by auto
next
  case (Cons x xs)
  show ?case
    by (cases ys) (auto simp: Cons.IH split: option.splits)
qed

lemma those_map_total:
  "(\<And>x. x \<in> set xs \<Longrightarrow> \<exists>y. f x = Some y) \<Longrightarrow> \<exists>ys. those (map f xs) = Some ys"
  by (induction xs) (auto split: option.splits)

lemma those_map_map_option:
  "those (map (\<lambda>x. map_option f (g x)) xs) = map_option (map f) (those (map g xs))"
  by (induction xs) (auto split: option.splits simp: option.map_comp comp_def)

lemma list_all2_right:
  "list_all2 P xs ys \<Longrightarrow> y \<in> set ys \<Longrightarrow> \<exists>x \<in> set xs. P x y"
  by (induction xs ys rule: list_all2_induct) auto

lemma list_all2_left:
  "list_all2 P xs ys \<Longrightarrow> x \<in> set xs \<Longrightarrow> \<exists>y \<in> set ys. P x y"
  by (induction xs ys rule: list_all2_induct) auto

lemma list_all2_choice:
  "list_all2 (\<lambda>x y. \<exists>z. P x z \<and> Q y z) xs ys \<Longrightarrow> \<exists>zs. list_all2 P xs zs \<and> list_all2 Q ys zs"
proof (induction xs ys rule: list_all2_induct)
  case Nil
  show ?case by simp
next
  case (Cons x xs y ys)
  then obtain z zs where "P x z" "Q y z" "list_all2 P xs zs" "list_all2 Q ys zs" by blast
  then have "list_all2 P (x # xs) (z # zs) \<and> list_all2 Q (y # ys) (z # zs)" by simp
  then show ?case by blast
qed

lemma list_all2_same_left:
  "list_all2 P xs ys \<Longrightarrow> (\<And>x y. x \<in> set xs \<Longrightarrow> P x y \<Longrightarrow> \<exists>z. P' x z \<and> Q y z)
   \<Longrightarrow> \<exists>zs. list_all2 P' xs zs \<and> list_all2 Q ys zs"
proof -
  assume a: "list_all2 P xs ys" and b: "\<And>x y. x \<in> set xs \<Longrightarrow> P x y \<Longrightarrow> \<exists>z. P' x z \<and> Q y z"
  have "list_all2 (\<lambda>x y. \<exists>z. P' x z \<and> Q y z) xs ys"
    using a b by (induction xs ys rule: list_all2_induct) auto
  then show ?thesis by (rule list_all2_choice)
qed

section \<open>Facts about the traversal\<close>

lemma includes_str_sublist: "includes_str p accept \<longleftrightarrow> sublist accept p"
  by (induction p) (auto simp: sublist_Cons_right)

lemma sublist_fullPath:
  assumes "sublist accept p"
  shows "sublist accept (fullPath p item)"
proof (cases "p = []")
  case True
  with assms show ?thesis by simp
next
  case False
  from assms obtain ps ss where "p = ps @ accept @ ss" by (auto simp: sublist_def)
  then have "fullPath p item = ps @ accept @ (ss @ ''/'' @ name item)"
    using False by (simp add: fullPath_def)
  then show ?thesis by (metis sublist_appendI)
qed

lemma not_ignored_below:
  "accept \<in> set (INCLUDE_ONLY cfg) \<Longrightarrow> sublist accept p \<Longrightarrow> \<not> ignored cfg item (fullPath p item)"
  unfolding ignored_def list_ex_iff using sublist_fullPath includes_str_sublist by blast

lemma length_fullPath: "p \<noteq> [] \<Longrightarrow> length p < length (fullPath p item) \<and> fullPath p item \<noteq> []"
  by (simp add: fullPath_def)

lemma flat_fetchTree:
  "set (flat (snd (fetchTree w p))) =
     (if tree_response w p = None then {Get_tree p, Err_tree p} else {Get_tree p})"
  by (auto simp: fetchTree_def split: option.splits)

lemma flat_downloadFile:
  "flat (downloadFile cfg w p) =
     (case raw_response w p of
        None \<Rightarrow> [Get_file p, Err_download p]
      | Some d \<Rightarrow>
          if outputFile_ok w (localPath cfg w p)
          then [Get_file p, Output_file (localPath cfg w p) d, Log_downloaded (localPath cfg w p)]
          else [Get_file p, Err_download p])"
  by (simp add: downloadFile_def split: option.splits)

lemma task_mono:
  "task recurse cfg w p item = Some b \<Longrightarrow> (\<And>q c. recurse q = Some c \<Longrightarrow> recurse' q = Some c)
   \<Longrightarrow> task recurse' cfg w p item = Some b"
  by (auto simp: task_def split: if_splits)

lemma downloadFolder_Suc:
  "downloadFolder (Suc n) cfg w p = Some a \<longleftrightarrow>
     (\<exists>bs. list_all2 (\<lambda>item b. task (downloadFolder n cfg w) cfg w p item = Some b)
             (fst (fetchTree w p)) bs \<and>
           a = Seq [snd (fetchTree w p), Par bs])"
  by (cases "fetchTree w p") (auto simp: those_map_Some)

lemma flat_downloadFolder:
  "downloadFolder (Suc n) cfg w p = Some a \<Longrightarrow>
     \<exists>bs. list_all2 (\<lambda>item b. task (downloadFolder n cfg w) cfg w p item = Some b)
             (fst (fetchTree w p)) bs \<and>
          set (flat a) = set (flat (snd (fetchTree w p))) \<union> (\<Union>b \<in> set bs. set (flat b))"
  unfolding downloadFolder_Suc by auto

lemma root_listed: "downloadFolder fuel cfg w p = Some a \<Longrightarrow> Get_tree p \<in> set (flat a)"
  by (cases fuel) (auto simp del: downloadFolder.simps(2) simp: flat_fetchTree dest!: flat_downloadFolder)

lemma downloadFolder_more_fuel:
  "downloadFolder m cfg w p = Some a \<Longrightarrow> downloadFolder (m + k) cfg w p = Some a"
proof (induction m arbitrary: p a)
  case 0
  then show ?case by simp
next
  case (Suc m)
  from Suc.prems obtain bs where
    bs: "list_all2 (\<lambda>item b. task (downloadFolder m cfg w) cfg w p item = Some b)
           (fst (fetchTree w p)) bs"
    and a: "a = Seq [snd (fetchTree w p), Par bs]"
    unfolding downloadFolder_Suc by blast
  have "list_all2 (\<lambda>item b. task (downloadFolder (m + k) cfg w) cfg w p item = Some b)
          (fst (fetchTree w p)) bs"
    using bs by (rule list_all2_mono) (erule task_mono, erule Suc.IH)
  then show ?case using a by (simp only: add_Suc downloadFolder_Suc) blast
qed

lemma downloadFolder_unique:
  assumes "downloadFolder m cfg w p = Some a" "downloadFolder n cfg w p = Some b"
  shows "a = b"
proof -
  have "downloadFolder (m + n) cfg w p = Some a"
    using assms(1) by (rule downloadFolder_more_fuel)
  moreover have "downloadFolder (n + m) cfg w p = Some b"
    using assms(2) by (rule downloadFolder_more_fuel)
  ultimately show ?thesis by (simp add: add.commute)
qed

text \<open>Enough fuel: a repository whose folders beyond path length N are empty or fail.\<close>

lemma downloadFolder_total:
  assumes deep: "\<And>q. N < length q \<Longrightarrow> tree_response w q = None \<or> tree_response w q = Some []"
  shows "p \<noteq> [] \<Longrightarrow> N < n + length p \<Longrightarrow> \<exists>a. downloadFolder (Suc n) cfg w p = Some a"
proof (induction n arbitrary: p)
  case 0
  then have "fst (fetchTree w p) = []"
    using deep [of p] by (auto simp: fetchTree_def)
  then show ?case unfolding downloadFolder_Suc by simp
next
  case (Suc n)
  have "\<exists>b. task (downloadFolder (Suc n) cfg w) cfg w p item = Some b" for item
  proof (cases "\<not> ignored cfg item (fullPath p item) \<and> type item \<noteq> ''blob'' \<and> type item = ''tree''")
    case True
    have "\<exists>a. downloadFolder (Suc n) cfg w (fullPath p item) = Some a"
      using Suc.prems length_fullPath [of p item] by (intro Suc.IH) auto
    with True show ?thesis by (simp add: task_def)
  next
    case False
    then show ?thesis by (auto simp: task_def)
  qed
  then have "\<exists>bs. those (map (task (downloadFolder (Suc n) cfg w) cfg w p) (fst (fetchTree w p))) = Some bs"
    by (intro those_map_total) blast
  then show ?case
    unfolding downloadFolder_Suc those_map_Some by blast
qed

lemma flat_downloadFile_no_ignoring: "Log_ignoring q \<notin> set (flat (downloadFile cfg w p))"
  by (simp add: downloadFile_def split: option.splits)

lemma flat_fetchTree_no_ignoring: "Log_ignoring q \<notin> set (flat (snd (fetchTree w p)))"
  by (simp add: fetchTree_def split: option.splits)

lemma no_ignoring_below:
  "downloadFolder fuel cfg w p = Some a \<Longrightarrow> accept \<in> set (INCLUDE_ONLY cfg) \<Longrightarrow> sublist accept p
   \<Longrightarrow> Log_ignoring q \<notin> set (flat a)"
proof (induction fuel arbitrary: p a)
  case 0
  then show ?case by simp
next
  case (Suc n)
  obtain items listing where ft: "fetchTree w p = (items, listing)" by (cases "fetchTree w p")
  with Suc.prems(1) obtain bs where
    bs: "those (map (task (downloadFolder n cfg w) cfg w p) items) = Some bs"
    and a: "a = Seq [listing, Par bs]"
    by auto
  have "Log_ignoring q \<notin> set (flat b)" if "b \<in> set bs" for b
  proof -
    from bs that obtain item where item: "task (downloadFolder n cfg w) cfg w p item = Some b"
      unfolding those_map_Some by (auto simp: in_set_conv_nth list_all2_conv_all_nth)
    have ni: "\<not> ignored cfg item (fullPath p item)"
      using not_ignored_below Suc.prems by blast
    show ?thesis
    proof (cases "type item = ''blob''")
      case True
      with item ni show ?thesis by (auto simp: task_def flat_downloadFile_no_ignoring)
    next
      case False
      show ?thesis
      proof (cases "type item = ''tree''")
        case True
        with item ni False have "downloadFolder n cfg w (fullPath p item) = Some b"
          by (simp add: task_def)
        then show ?thesis
          using Suc.IH Suc.prems(2,3) sublist_fullPath by blast
      next
        case nt: False
        with item ni False show ?thesis by (auto simp: task_def)
      qed
    qed
  qed
  moreover have "Log_ignoring q \<notin> set (flat listing)"
    using flat_fetchTree_no_ignoring [of q w p] ft by simp
  ultimately show ?case by (auto simp: a)
qed

lemma event_origin:
  "downloadFolder fuel cfg w p = Some a \<Longrightarrow> e \<in> set (flat a) \<Longrightarrow>
     \<exists>q. Get_tree q \<in> set (flat a) \<and>
       (e = Get_tree q \<or> (e = Err_tree q \<and> tree_response w q = None) \<or>
        (\<exists>item \<in> set (fst (fetchTree w q)).
           (ignored cfg item (fullPath q item) \<and> e = Log_ignoring (fullPath q item)) \<or>
           (\<not> ignored cfg item (fullPath q item) \<and> type item = ''blob'' \<and>
            e \<in> set (flat (downloadFile cfg w (fullPath q item))))))"
proof (induction fuel arbitrary: p a)
  case 0
  then show ?case by simp
next
  case (Suc n)
  from flat_downloadFolder [OF Suc.prems(1)] obtain bs where
    bs: "list_all2 (\<lambda>item b. task (downloadFolder n cfg w) cfg w p item = Some b)
           (fst (fetchTree w p)) bs"
    and fl: "set (flat a) = set (flat (snd (fetchTree w p))) \<union> (\<Union>b \<in> set bs. set (flat b))"
    by blast
  have root: "Get_tree p \<in> set (flat a)"
    using Suc.prems(1) by (rule root_listed)
  from Suc.prems(2) fl consider
    (listing) "e \<in> set (flat (snd (fetchTree w p)))" |
    (child) b where "b \<in> set bs" "e \<in> set (flat b)"
    by auto
  then show ?case
  proof cases
    case listing
    then have "e = Get_tree p \<or> (e = Err_tree p \<and> tree_response w p = None)"
      by (auto simp: flat_fetchTree split: if_splits)
    with root show ?thesis by blast
  next
    case child
    from list_all2_right [OF bs child(1)] obtain item where
      item: "item \<in> set (fst (fetchTree w p))"
      and b: "task (downloadFolder n cfg w) cfg w p item = Some b"
      by blast
    have sub: "set (flat b) \<subseteq> set (flat a)"
      using child(1) fl by auto
    show ?thesis
    proof (cases "ignored cfg item (fullPath p item)")
      case True
      with b child(2) have "e = Log_ignoring (fullPath p item)"
        by (auto simp: task_def)
      with True item root show ?thesis by blast
    next
      case ni: False
      show ?thesis
      proof (cases "type item = ''blob''")
        case True
        with b ni child(2) have "e \<in> set (flat (downloadFile cfg w (fullPath p item)))"
          by (auto simp: task_def)
        with True ni item root show ?thesis by blast
      next
        case nb: False
        show ?thesis
        proof (cases "type item = ''tree''")
          case True
          with b ni nb have "downloadFolder n cfg w (fullPath p item) = Some b"
            by (simp add: task_def)
          from Suc.IH [OF this child(2)] obtain q where
            "Get_tree q \<in> set (flat b)"
            "e = Get_tree q \<or> (e = Err_tree q \<and> tree_response w q = None) \<or>
             (\<exists>item \<in> set (fst (fetchTree w q)).
               (ignored cfg item (fullPath q item) \<and> e = Log_ignoring (fullPath q item)) \<or>
               (\<not> ignored cfg item (fullPath q item) \<and> type item = ''blob'' \<and>
                e \<in> set (flat (downloadFile cfg w (fullPath q item)))))"
            by blast
          with sub show ?thesis by blast
        next
          case False
          with b ni nb child(2) show ?thesis by (auto simp: task_def)
        qed
      qed
    qed
  qed
qed

lemma downloadFolder_no_cache_write:
  assumes "downloadFolder fuel cfg w p = Some a" "e \<in> set (flat a)"
  shows "\<not> cache_write e"
  using event_origin [OF assms]
  by (auto simp: flat_downloadFile split: option.splits if_splits)

lemma sub_behaviour:
  "downloadFolder fuel cfg w p = Some a \<Longrightarrow> Get_tree q \<in> set (flat a) \<Longrightarrow>
     \<exists>m b. downloadFolder (Suc m) cfg w q = Some b \<and> set (flat b) \<subseteq> set (flat a)"
proof (induction fuel arbitrary: p a)
  case 0
  then show ?case by simp
next
  case (Suc n)
  from flat_downloadFolder [OF Suc.prems(1)] obtain bs where
    bs: "list_all2 (\<lambda>item b. task (downloadFolder n cfg w) cfg w p item = Some b)
           (fst (fetchTree w p)) bs"
    and fl: "set (flat a) = set (flat (snd (fetchTree w p))) \<union> (\<Union>b \<in> set bs. set (flat b))"
    by blast
  from Suc.prems(2) fl consider
    (listing) "Get_tree q \<in> set (flat (snd (fetchTree w p)))" |
    (child) b where "b \<in> set bs" "Get_tree q \<in> set (flat b)"
    by auto
  then show ?case
  proof cases
    case listing
    then have "q = p" by (auto simp: flat_fetchTree split: if_splits)
    with Suc.prems(1) show ?thesis by blast
  next
    case child
    from list_all2_right [OF bs child(1)] obtain item where
      b: "task (downloadFolder n cfg w) cfg w p item = Some b"
      by blast
    have sub: "set (flat b) \<subseteq> set (flat a)"
      using child(1) fl by auto
    from b child(2) have "downloadFolder n cfg w (fullPath p item) = Some b"
      by (auto simp: task_def flat_downloadFile split: if_splits option.splits)
    from Suc.IH [OF this child(2)] sub show ?thesis by blast
  qed
qed

lemma children_handled:
  assumes a: "downloadFolder fuel cfg w p = Some a"
    and q: "Get_tree q \<in> set (flat a)"
    and item: "item \<in> set (fst (fetchTree w q))"
  shows "(ignored cfg item (fullPath q item) \<longrightarrow> Log_ignoring (fullPath q item) \<in> set (flat a)) \<and>
         (\<not> ignored cfg item (fullPath q item) \<and> type item = ''blob'' \<longrightarrow>
            set (flat (downloadFile cfg w (fullPath q item))) \<subseteq> set (flat a)) \<and>
         (\<not> ignored cfg item (fullPath q item) \<and> type item = ''tree'' \<longrightarrow>
            Get_tree (fullPath q item) \<in> set (flat a))"
proof -
  from sub_behaviour [OF a q] obtain m b where
    b: "downloadFolder (Suc m) cfg w q = Some b" and sub: "set (flat b) \<subseteq> set (flat a)"
    by blast
  from flat_downloadFolder [OF b] obtain bs where
    bs: "list_all2 (\<lambda>item b. task (downloadFolder m cfg w) cfg w q item = Some b)
           (fst (fetchTree w q)) bs"
    and fl: "set (flat b) = set (flat (snd (fetchTree w q))) \<union> (\<Union>b \<in> set bs. set (flat b))"
    by blast
  from list_all2_left [OF bs item] obtain c where
    c: "c \<in> set bs" "task (downloadFolder m cfg w) cfg w q item = Some c"
    by blast
  have csub: "set (flat c) \<subseteq> set (flat a)" using c(1) fl sub by auto
  have "Log_ignoring (fullPath q item) \<in> set (flat a)" if "ignored cfg item (fullPath q item)"
    using that c(2) csub by (auto simp: task_def)
  moreover have "set (flat (downloadFile cfg w (fullPath q item))) \<subseteq> set (flat a)"
    if "\<not> ignored cfg item (fullPath q item)" "type item = ''blob''"
    using that c(2) csub by (auto simp: task_def)
  moreover have "Get_tree (fullPath q item) \<in> set (flat a)"
    if "\<not> ignored cfg item (fullPath q item)" "type item = ''tree''"
  proof -
    from that c(2) have "downloadFolder m cfg w (fullPath q item) = Some c"
      by (simp add: task_def)
    then have "Get_tree (fullPath q item) \<in> set (flat c)" by (rule root_listed)
    with csub show ?thesis by blast
  qed
  ultimately show ?thesis by blast
qed

lemma listed_origin:
  "downloadFolder fuel cfg w root = Some a \<Longrightarrow> Get_tree q \<in> set (flat a) \<Longrightarrow>
     q = root \<or>
     (\<exists>parent item. Get_tree parent \<in> set (flat a) \<and> item \<in> set (fst (fetchTree w parent)) \<and>
        type item = ''tree'' \<and> \<not> ignored cfg item (fullPath parent item) \<and>
        q = fullPath parent item)"
proof (induction fuel arbitrary: root a)
  case 0
  then show ?case by simp
next
  case (Suc n)
  from flat_downloadFolder [OF Suc.prems(1)] obtain bs where
    bs: "list_all2 (\<lambda>item b. task (downloadFolder n cfg w) cfg w root item = Some b)
           (fst (fetchTree w root)) bs"
    and fl: "set (flat a) = set (flat (snd (fetchTree w root))) \<union> (\<Union>b \<in> set bs. set (flat b))"
    by blast
  have rt: "Get_tree root \<in> set (flat a)"
    using Suc.prems(1) by (rule root_listed)
  from Suc.prems(2) fl consider
    (listing) "Get_tree q \<in> set (flat (snd (fetchTree w root)))" |
    (child) b where "b \<in> set bs" "Get_tree q \<in> set (flat b)"
    by auto
  then show ?case
  proof cases
    case listing
    then have "q = root" by (auto simp: flat_fetchTree split: if_splits)
    then show ?thesis by blast
  next
    case child
    from list_all2_right [OF bs child(1)] obtain item where
      item: "item \<in> set (fst (fetchTree w root))"
      and b: "task (downloadFolder n cfg w) cfg w root item = Some b"
      by blast
    have sub: "set (flat b) \<subseteq> set (flat a)"
      using child(1) fl by auto
    from b child(2) have props: "type item = ''tree''" "\<not> ignored cfg item (fullPath root item)"
      and rec: "downloadFolder n cfg w (fullPath root item) = Some b"
      by (auto simp: task_def flat_downloadFile split: if_splits option.splits)
    from Suc.IH [OF rec child(2)] show ?thesis
    proof
      assume "q = fullPath root item"
      with rt item props show ?thesis by blast
    next
      assume "\<exists>parent item. Get_tree parent \<in> set (flat b) \<and>
                item \<in> set (fst (fetchTree w parent)) \<and> type item = ''tree'' \<and>
                \<not> ignored cfg item (fullPath parent item) \<and> q = fullPath parent item"
      with sub show ?thesis by blast
    qed
  qed
qed

lemma listed_matches:
  assumes "downloadFolder fuel cfg w root = Some a" "Get_tree q \<in> set (flat a)" "q \<noteq> root"
    and "INCLUDE_ONLY cfg \<noteq> []"
  shows "\<exists>accept \<in> set (INCLUDE_ONLY cfg). includes_str q accept"
proof -
  from listed_origin [OF assms(1,2)] assms(3) obtain parent item where
    "type item = ''tree''" "\<not> ignored cfg item (fullPath parent item)" "q = fullPath parent item"
    by blast
  with assms(4) show ?thesis by (auto simp: ignored_def list_ex_iff)
qed

section \<open>Concrete runs\<close>

lemma example_proto:
  "downloadFolder 2 example_config example_world ''proto'' =
     Some (Seq [Ev (Get_tree ''proto''),
        Par [Seq [Ev (Get_tree ''proto/docs''),
                  Par [Seq [Ev (Get_file ''proto/docs/x.txt''),
                            Ev (Err_download ''proto/docs/x.txt'')],
                       Seq [Ev (Get_file ''proto/docs/y.txt''),
                            Ev (Output_file ''/home/out/proto/docs/y.txt'' [1, 2, 3]),
                            Ev (Log_downloaded ''/home/out/proto/docs/y.txt'')]]],
             Seq [Ev (Get_file ''proto/a.proto''),
                  Ev (Output_file ''/home/out/proto/a.proto'' [1, 2, 3]),
                  Ev (Log_downloaded ''/home/out/proto/a.proto'')],
             Ev (Log_ignoring ''proto/other'')]])"
  by (simp add: numeral_2_eq_2 example_world_def example_config_def fetchTree_def task_def
      fullPath_def ignored_def downloadFile_def localPath_def)

lemma example_build:
  "downloadFolder 2 example_config example_world ''build'' =
     Some (Seq [Seq [Ev (Get_tree ''build''), Ev (Err_tree ''build'')], Par []])"
  by (simp add: numeral_2_eq_2 example_world_def example_config_def fetchTree_def task_def
      fullPath_def ignored_def downloadFile_def localPath_def)

lemma example_world_commit: "commit_response example_world = Some ''abc''"
  by (simp add: example_world_def)

lemma example_world_cache: "COMMIT_FILE example_world = Unreadable"
  by (simp add: example_world_def)

section \<open>The run-skip cache\<close>

lemma lin_banner:
  "lin (banner cfg) = {[Log_starting, if INCLUDE_ONLY cfg \<noteq> [] then Log_filtering else Log_no_filter]}"
  by (simp add: banner_def)

lemma lin_lookup:
  "lin (snd (fetchLatestCommitHash w)) =
     {if commit_response w = None then [Get_commit, Err_commit] else [Get_commit]}"
  by (simp add: fetchLatestCommitHash_def split: option.splits)

lemma lin_reading:
  "lin (snd (readCache w)) =
     {if COMMIT_FILE w = Unreadable then [Read_commit_file, Warn_first_run] else [Read_commit_file]}"
  by (simp add: readCache_def split: commit_file.splits)

lemma main_no_commit:
  "commit_response w = None \<or> commit_response w = Some [] \<Longrightarrow>
   main fuel cfg w =
     Some \<lparr> ending = No_commit,
            behaviour = Seq [banner cfg, snd (fetchLatestCommitHash w), Ev Err_no_commit],
            commit_file_after = COMMIT_FILE w \<rparr>"
  by (auto simp: main_def fetchLatestCommitHash_def)

lemma main_threw:
  "commit_response w = Some h \<Longrightarrow> h \<noteq> [] \<Longrightarrow> COMMIT_FILE w = Json_null \<Longrightarrow>
   main fuel cfg w =
     Some \<lparr> ending = Threw,
            behaviour = Seq [banner cfg, Ev Get_commit, Ev Mkdirp_cache, Ev Read_commit_file],
            commit_file_after = COMMIT_FILE w \<rparr>"
  by (simp add: main_def fetchLatestCommitHash_def readCache_def)

lemma main_skipped:
  "commit_response w = Some h \<Longrightarrow> h \<noteq> [] \<Longrightarrow>
   COMMIT_FILE w = Json_props (Str h) (Str (generateArgsHash cfg)) \<Longrightarrow>
   main fuel cfg w =
     Some \<lparr> ending = Skipped,
            behaviour = Seq [banner cfg, Ev Get_commit, Ev Mkdirp_cache, Ev Read_commit_file,
                             Ev Log_skip],
            commit_file_after = COMMIT_FILE w \<rparr>"
  by (simp add: main_def fetchLatestCommitHash_def readCache_def unchanged_def)

lemma main_complete:
  "commit_response w = Some h \<Longrightarrow> h \<noteq> [] \<Longrightarrow> COMMIT_FILE w \<noteq> Json_null \<Longrightarrow>
   COMMIT_FILE w \<noteq> Json_props (Str h) (Str (generateArgsHash cfg)) \<Longrightarrow>
   main fuel cfg w =
     map_option
       (\<lambda>folders.
          \<lparr> ending = Complete,
            behaviour =
              Seq [banner cfg, Ev Get_commit, Ev Mkdirp_cache, snd (readCache w), Seq folders,
                   Ev (Write_commit_file h (generateArgsHash cfg)), Ev Log_complete],
            commit_file_after = Json_props (Str h) (Str (generateArgsHash cfg)) \<rparr>)
       (those (map (downloadFolder fuel cfg w) FOLDERS_TO_DOWNLOAD))"
  by (cases "COMMIT_FILE w")
     (auto simp: main_def fetchLatestCommitHash_def readCache_def unchanged_def)

lemma main_cases:
  obtains
    (no_commit) "commit_response w = None \<or> commit_response w = Some []" |
    (threw) h where "commit_response w = Some h" "h \<noteq> []" "COMMIT_FILE w = Json_null" |
    (skipped) h where "commit_response w = Some h" "h \<noteq> []"
      "COMMIT_FILE w = Json_props (Str h) (Str (generateArgsHash cfg))" |
    (complete) h where "commit_response w = Some h" "h \<noteq> []" "COMMIT_FILE w \<noteq> Json_null"
      "COMMIT_FILE w \<noteq> Json_props (Str h) (Str (generateArgsHash cfg))"
  by (cases "commit_response w") auto

lemma complete_runs:
  assumes folders: "list_all2 (\<lambda>folder b. downloadFolder fuel cfg w folder = Some b) fs folders"
    and t: "t \<in> lin (Seq [banner cfg, Ev Get_commit, Ev Mkdirp_cache, snd (readCache w),
                           Seq folders, Ev (Write_commit_file h a), Ev Log_complete])"
  shows "\<exists>pre. t = pre @ [Write_commit_file h a, Log_complete] \<and>
           (\<forall>e \<in> set pre. \<not> cache_write e) \<and>
           (\<forall>b \<in> set folders. set (flat b) \<subseteq> set pre)"
proof -
  from t obtain x1 x4 x5 where
    x1: "x1 \<in> lin (banner cfg)" and x4: "x4 \<in> lin (snd (readCache w))"
    and x5: "x5 \<in> lin (Seq folders)"
    and t': "t = x1 @ [Get_commit] @ [Mkdirp_cache] @ x4 @ x5 @ [Write_commit_file h a] @ [Log_complete]"
    unfolding lin_Seq_Cons lin_Seq_Nil by auto
  let ?pre = "x1 @ [Get_commit] @ [Mkdirp_cache] @ x4 @ x5"
  have s5: "set x5 = (\<Union>b \<in> set folders. set (flat b))"
    using lin_set [OF x5] by simp
  have "\<not> cache_write e" if "e \<in> set x5" for e
  proof -
    from that s5 obtain b where b: "b \<in> set folders" "e \<in> set (flat b)" by auto
    from list_all2_right [OF folders b(1)] obtain folder where
      "downloadFolder fuel cfg w folder = Some b" by blast
    then show ?thesis using b(2) by (rule downloadFolder_no_cache_write)
  qed
  moreover have "\<not> cache_write e" if "e \<in> set x1" for e
    using that x1 by (auto simp: lin_banner split: if_splits)
  moreover have "\<not> cache_write e" if "e \<in> set x4" for e
    using that x4 by (auto simp: lin_reading split: if_splits)
  ultimately have "\<forall>e \<in> set ?pre. \<not> cache_write e" by auto
  moreover have "\<forall>b \<in> set folders. set (flat b) \<subseteq> set ?pre" using s5 by auto
  moreover have "t = ?pre @ [Write_commit_file h a, Log_complete]" using t' by simp
  ultimately show ?thesis by blast
qed

lemma main_total:
  assumes deep: "\<And>q. N < length q \<Longrightarrow> tree_response w q = None \<or> tree_response w q = Some []"
  shows "\<exists>r. main (Suc N) cfg w = Some r"
proof (cases rule: main_cases [where w = w and cfg = cfg])
  case no_commit
  then show ?thesis by (simp add: main_no_commit)
next
  case (threw h)
  then show ?thesis by (simp add: main_threw)
next
  case (skipped h)
  then show ?thesis by (simp add: main_skipped)
next
  case (complete h)
  have "\<exists>a. downloadFolder (Suc N) cfg w folder = Some a" if "folder \<in> set FOLDERS_TO_DOWNLOAD" for folder
    using that by (intro downloadFolder_total [OF deep]) (auto simp: FOLDERS_TO_DOWNLOAD_def)
  then have "\<exists>folders. those (map (downloadFolder (Suc N) cfg w) FOLDERS_TO_DOWNLOAD) = Some folders"
    by (intro those_map_total) blast
  then show ?thesis using complete by (auto simp: main_complete)
qed

text \<open>
  Claim C1. A run ends at the skip return exactly when the latest commit was resolved and
  the cache file holds that very commit together with the hash of the current arguments.
  With no readable cache file, with a cache file that lacks either property, or with
  either value different, the run does not skip. This holds for every commit, every
  configuration and every content of the cache file.
\<close>

theorem skip_decision:
  "(\<exists>r. main fuel cfg w = Some r \<and> ending r = Skipped) \<longleftrightarrow>
   (\<exists>h. commit_response w = Some h \<and> h \<noteq> [] \<and>
        COMMIT_FILE w = Json_props (Str h) (Str (generateArgsHash cfg)))"
  by (auto simp: main_def fetchLatestCommitHash_def readCache_def unchanged_def
      split: option.splits commit_file.splits)

text \<open>
  The sample run skips once the cache file holds its commit and hash, and does not skip
  without a cache file.
\<close>

theorem skip_decision_witness:
  "(\<exists>r. main 0 example_config
          (example_world\<lparr>COMMIT_FILE := Json_props (Str ''abc'') (Str (generateArgsHash example_config))\<rparr>)
        = Some r \<and> ending r = Skipped) \<and>
   \<not> (\<exists>r. main 0 example_config example_world = Some r \<and> ending r = Skipped)"
  using skip_decision [of 0 example_config
      "example_world\<lparr>COMMIT_FILE := Json_props (Str ''abc'') (Str (generateArgsHash example_config))\<rparr>"]
    skip_decision [of 0 example_config example_world]
  by (simp add: example_world_def)

text \<open>
  Claim C8. When the cache file holds the latest commit and the current hash, no run of
  \<^verbatim>\<open>main\<close> lists a tree, fetches a file or writes anything; it logs the skip and returns
  right after the comparison.
\<close>

theorem skip_without_remote_calls:
  assumes "commit_response w = Some h"
    and "COMMIT_FILE w = Json_props (Str h) (Str (generateArgsHash cfg))"
  shows "\<exists>r. main fuel cfg w = Some r \<and>
           (\<forall>t \<in> lin (behaviour r). \<forall>e \<in> set t. \<not> remote_call e \<and> \<not> file_write e \<and> \<not> cache_write e) \<and>
           commit_file_after r = COMMIT_FILE w \<and>
           (h \<noteq> [] \<longrightarrow>
              ending r = Skipped \<and>
              lin (behaviour r) =
                {[Log_starting, if INCLUDE_ONLY cfg \<noteq> [] then Log_filtering else Log_no_filter,
                  Get_commit, Mkdirp_cache, Read_commit_file, Log_skip]})"
  using assms
  by (simp add: main_def fetchLatestCommitHash_def readCache_def unchanged_def banner_def)

theorem skip_without_remote_calls_witness:
  "\<exists>r. main 2 example_config
         (example_world\<lparr>COMMIT_FILE := Json_props (Str ''abc'') (Str (generateArgsHash example_config))\<rparr>)
       = Some r \<and> ending r = Skipped \<and>
       flat (behaviour r) =
         [Log_starting, Log_filtering, Get_commit, Mkdirp_cache, Read_commit_file, Log_skip]"
proof -
  let ?w = "example_world\<lparr>COMMIT_FILE := Json_props (Str ''abc'') (Str (generateArgsHash example_config))\<rparr>"
  have 1: "commit_response ?w = Some ''abc''" by (simp add: example_world_def)
  have 2: "COMMIT_FILE ?w = Json_props (Str ''abc'') (Str (generateArgsHash example_config))"
    by simp
  from skip_without_remote_calls [OF 1 2, of 2] obtain r where
    r: "main 2 example_config ?w = Some r" "ending r = Skipped"
    "lin (behaviour r) =
       {[Log_starting, if INCLUDE_ONLY example_config \<noteq> [] then Log_filtering else Log_no_filter,
         Get_commit, Mkdirp_cache, Read_commit_file, Log_skip]}"
    by auto
  have "flat (behaviour r) \<in> lin (behaviour r)" by (rule flat_in_lin)
  with r show ?thesis by (simp add: example_config_def)
qed

text \<open>
  Claim C3. The cache file is written only by a run that reaches the end of \<^verbatim>\<open>main\<close>: a
  run that ends anywhere else (skip, no commit, exception) leaves the file as it was and
  writes nothing to it. A run that completes has traversed every root folder; in each of
  its runs the write of the cache file comes after every event of those traversals, and
  the file then holds the latest commit and the current hash. Whether a run completes
  depends on the commit lookup and the cache file alone, not on any listing or file
  request that failed on the way; and with a repository of bounded depth \<^verbatim>\<open>main\<close> returns.
\<close>

theorem cache_written_after_full_pass:
  "(\<forall>r. main fuel cfg w = Some r \<longrightarrow>
      (ending r = Complete \<longleftrightarrow>
         (\<exists>h. commit_response w = Some h \<and> h \<noteq> [] \<and> COMMIT_FILE w \<noteq> Json_null \<and>
              COMMIT_FILE w \<noteq> Json_props (Str h) (Str (generateArgsHash cfg)))) \<and>
      (ending r \<noteq> Complete \<longrightarrow>
         commit_file_after r = COMMIT_FILE w \<and>
         (\<forall>t \<in> lin (behaviour r). \<forall>e \<in> set t. \<not> cache_write e)) \<and>
      (ending r = Complete \<longrightarrow>
         (\<exists>h folders.
            commit_response w = Some h \<and>
            list_all2 (\<lambda>folder b. downloadFolder fuel cfg w folder = Some b)
              FOLDERS_TO_DOWNLOAD folders \<and>
            commit_file_after r = Json_props (Str h) (Str (generateArgsHash cfg)) \<and>
            (\<forall>t \<in> lin (behaviour r).
               \<exists>pre. t = pre @ [Write_commit_file h (generateArgsHash cfg), Log_complete] \<and>
                 (\<forall>e \<in> set pre. \<not> cache_write e) \<and>
                 (\<forall>b \<in> set folders. set (flat b) \<subseteq> set pre))))) \<and>
   ((\<forall>q. N < length q \<longrightarrow> tree_response w q = None \<or> tree_response w q = Some []) \<longrightarrow>
      (\<exists>r. main (Suc N) cfg w = Some r))"
proof -
  have "(\<forall>q. N < length q \<longrightarrow> tree_response w q = None \<or> tree_response w q = Some []) \<longrightarrow>
      (\<exists>r. main (Suc N) cfg w = Some r)"
    using main_total by blast
  moreover have "\<forall>r. main fuel cfg w = Some r \<longrightarrow>
      (ending r = Complete \<longleftrightarrow>
         (\<exists>h. commit_response w = Some h \<and> h \<noteq> [] \<and> COMMIT_FILE w \<noteq> Json_null \<and>
              COMMIT_FILE w \<noteq> Json_props (Str h) (Str (generateArgsHash cfg)))) \<and>
      (ending r \<noteq> Complete \<longrightarrow>
         commit_file_after r = COMMIT_FILE w \<and>
         (\<forall>t \<in> lin (behaviour r). \<forall>e \<in> set t. \<not> cache_write e)) \<and>
      (ending r = Complete \<longrightarrow>
         (\<exists>h folders.
            commit_response w = Some h \<and>
            list_all2 (\<lambda>folder b. downloadFolder fuel cfg w folder = Some b)
              FOLDERS_TO_DOWNLOAD folders \<and>
            commit_file_after r = Json_props (Str h) (Str (generateArgsHash cfg)) \<and>
            (\<forall>t \<in> lin (behaviour r).
               \<exists>pre. t = pre @ [Write_commit_file h (generateArgsHash cfg), Log_complete] \<and>
                 (\<forall>e \<in> set pre. \<not> cache_write e) \<and>
                 (\<forall>b \<in> set folders. set (flat b) \<subseteq> set pre))))"
  proof (intro allI impI)
    fix r
    assume r: "main fuel cfg w = Some r"
    show "(ending r = Complete \<longleftrightarrow>
         (\<exists>h. commit_response w = Some h \<and> h \<noteq> [] \<and> COMMIT_FILE w \<noteq> Json_null \<and>
              COMMIT_FILE w \<noteq> Json_props (Str h) (Str (generateArgsHash cfg)))) \<and>
      (ending r \<noteq> Complete \<longrightarrow>
         commit_file_after r = COMMIT_FILE w \<and>
         (\<forall>t \<in> lin (behaviour r). \<forall>e \<in> set t. \<not> cache_write e)) \<and>
      (ending r = Complete \<longrightarrow>
         (\<exists>h folders.
            commit_response w = Some h \<and>
            list_all2 (\<lambda>folder b. downloadFolder fuel cfg w folder = Some b)
              FOLDERS_TO_DOWNLOAD folders \<and>
            commit_file_after r = Json_props (Str h) (Str (generateArgsHash cfg)) \<and>
            (\<forall>t \<in> lin (behaviour r).
               \<exists>pre. t = pre @ [Write_commit_file h (generateArgsHash cfg), Log_complete] \<and>
                 (\<forall>e \<in> set pre. \<not> cache_write e) \<and>
                 (\<forall>b \<in> set folders. set (flat b) \<subseteq> set pre))))"
    proof (cases rule: main_cases [where w = w and cfg = cfg])
      case no_commit
      with r have "r = \<lparr> ending = No_commit,
            behaviour = Seq [banner cfg, snd (fetchLatestCommitHash w), Ev Err_no_commit],
            commit_file_after = COMMIT_FILE w \<rparr>"
        by (simp add: main_no_commit)
      with no_commit show ?thesis
        by (auto simp: lin_banner lin_lookup split: if_splits)
    next
      case (threw h)
      with r have "r = \<lparr> ending = Threw,
            behaviour = Seq [banner cfg, Ev Get_commit, Ev Mkdirp_cache, Ev Read_commit_file],
            commit_file_after = COMMIT_FILE w \<rparr>"
        by (simp add: main_threw)
      with threw show ?thesis
        by (auto simp: lin_banner split: if_splits)
    next
      case (skipped h)
      with r have "r = \<lparr> ending = Skipped,
            behaviour = Seq [banner cfg, Ev Get_commit, Ev Mkdirp_cache, Ev Read_commit_file,
                             Ev Log_skip],
            commit_file_after = COMMIT_FILE w \<rparr>"
        by (simp add: main_skipped)
      with skipped show ?thesis
        by (auto simp: lin_banner split: if_splits)
    next
      case (complete h)
      with r obtain folders where
        th: "those (map (downloadFolder fuel cfg w) FOLDERS_TO_DOWNLOAD) = Some folders"
        and r': "r = \<lparr> ending = Complete,
            behaviour =
              Seq [banner cfg, Ev Get_commit, Ev Mkdirp_cache, snd (readCache w), Seq folders,
                   Ev (Write_commit_file h (generateArgsHash cfg)), Ev Log_complete],
            commit_file_after = Json_props (Str h) (Str (generateArgsHash cfg)) \<rparr>"
        by (auto simp: main_complete)
      from th have la: "list_all2 (\<lambda>folder b. downloadFolder fuel cfg w folder = Some b)
              FOLDERS_TO_DOWNLOAD folders"
        by (simp add: those_map_Some)
      have runs: "\<forall>t \<in> lin (behaviour r).
               \<exists>pre. t = pre @ [Write_commit_file h (generateArgsHash cfg), Log_complete] \<and>
                 (\<forall>e \<in> set pre. \<not> cache_write e) \<and>
                 (\<forall>b \<in> set folders. set (flat b) \<subseteq> set pre)"
        using complete_runs [OF la] r' by simp
      have e: "ending r = Complete" using r' by simp
      have cf: "commit_file_after r = Json_props (Str h) (Str (generateArgsHash cfg))"
        using r' by simp
      show ?thesis using e cf complete la runs by blast
    qed
  qed
  ultimately show ?thesis by blast
qed

text \<open>
  The sample run meets one failed listing and one failed file request, and still ends
  with the cache file written.
\<close>

theorem cache_written_after_full_pass_witness:
  "\<exists>r. main 2 example_config example_world = Some r \<and> ending r = Complete \<and>
       commit_file_after r = Json_props (Str ''abc'') (Str (generateArgsHash example_config)) \<and>
       Err_download ''proto/docs/x.txt'' \<in> set (flat (behaviour r)) \<and>
       Err_tree ''build'' \<in> set (flat (behaviour r)) \<and>
       (\<exists>pre. flat (behaviour r) =
          pre @ [Write_commit_file ''abc'' (generateArgsHash example_config), Log_complete])"
proof -
  obtain r where r: "main 2 example_config example_world = Some r"
    and x: "Err_download ''proto/docs/x.txt'' \<in> set (flat (behaviour r))"
    and b: "Err_tree ''build'' \<in> set (flat (behaviour r))"
    by (simp add: main_def fetchLatestCommitHash_def readCache_def unchanged_def
        FOLDERS_TO_DOWNLOAD_def example_proto example_build example_world_commit
        example_world_cache)
  have c: "\<exists>h. commit_response example_world = Some h \<and> h \<noteq> [] \<and>
             COMMIT_FILE example_world \<noteq> Json_null \<and>
             COMMIT_FILE example_world \<noteq> Json_props (Str h) (Str (generateArgsHash example_config))"
    by (simp add: example_world_commit example_world_cache)
  have f: "flat (behaviour r) \<in> lin (behaviour r)" by (rule flat_in_lin)
  from cache_written_after_full_pass [of 2 example_config example_world 0] r c
  have e: "ending r = Complete" by blast
  with cache_written_after_full_pass [of 2 example_config example_world 0] r
  obtain h folders where
    h: "commit_response example_world = Some h"
    and cf: "commit_file_after r = Json_props (Str h) (Str (generateArgsHash example_config))"
    and runs: "\<forall>t \<in> lin (behaviour r).
               \<exists>pre. t = pre @ [Write_commit_file h (generateArgsHash example_config), Log_complete] \<and>
                 (\<forall>e \<in> set pre. \<not> cache_write e) \<and>
                 (\<forall>b \<in> set folders. set (flat b) \<subseteq> set pre)"
    by blast
  from h have "h = ''abc''" by (simp add: example_world_commit)
  with r e cf runs f x b show ?thesis by blast
qed

text \<open>
  Claim C5, as the code has it. When the latest commit cannot be resolved (the request
  fails, or the answer carries an empty id), \<^verbatim>\<open>main\<close> logs the failure and returns: no tree
  is listed, no file is fetched or written, and the cache file stays as it was. The
  process ends with status 0.
\<close>

theorem no_commit_aborts:
  assumes "commit_response w = None \<or> commit_response w = Some []"
  shows "\<exists>r. script fuel cfg w = Some (0, r) \<and> ending r = No_commit \<and>
           commit_file_after r = COMMIT_FILE w \<and>
           (\<forall>t \<in> lin (behaviour r).
              (\<forall>e \<in> set t. \<not> remote_call e \<and> \<not> file_write e \<and> \<not> cache_write e) \<and>
              last t = Err_no_commit)"
proof -
  let ?r = "\<lparr> ending = No_commit,
              behaviour = Seq [banner cfg, snd (fetchLatestCommitHash w), Ev Err_no_commit],
              commit_file_after = COMMIT_FILE w \<rparr>"
  have "main fuel cfg w = Some ?r"
    using assms by (auto simp: main_def fetchLatestCommitHash_def)
  then have "script fuel cfg w = Some (0, ?r)"
    by (simp add: script_def)
  moreover have "\<forall>t \<in> lin (behaviour ?r).
      (\<forall>e \<in> set t. \<not> remote_call e \<and> \<not> file_write e \<and> \<not> cache_write e) \<and>
      last t = Err_no_commit"
    by (simp add: lin_banner lin_lookup)
  ultimately show ?thesis by (intro exI [of _ ?r]) simp
qed

theorem no_commit_aborts_witness:
  "\<exists>r. script 2 example_config (example_world\<lparr>commit_response := None\<rparr>) = Some (0, r) \<and>
       ending r = No_commit \<and> commit_file_after r = Unreadable \<and>
       flat (behaviour r) = [Log_starting, Log_filtering, Get_commit, Err_commit, Err_no_commit]"
proof -
  have "commit_response (example_world\<lparr>commit_response := None\<rparr>) = None \<or>
        commit_response (example_world\<lparr>commit_response := None\<rparr>) = Some []"
    by simp
  from no_commit_aborts [OF this, of 2 example_config]
  show ?thesis
    by (auto simp: script_def main_def fetchLatestCommitHash_def banner_def example_world_def
        example_config_def)
qed

text \<open>
  Claim C5 as stated asks for a non-zero exit status. With the commit request failing, the
  status is 0.
\<close>

theorem no_commit_exit_status:
  "commit_response (example_world\<lparr>commit_response := None\<rparr>) = None \<and>
   map_option fst (script 2 example_config (example_world\<lparr>commit_response := None\<rparr>)) = Some 0"
  by (simp add: script_def main_def fetchLatestCommitHash_def example_world_def)

section \<open>Properties of the filter\<close>

lemma shouldDescend_iff:
  "shouldDescend p filterConfig \<longleftrightarrow>
     filterConfig = [] \<or> (\<exists>accept \<in> set filterConfig. \<exists>before after. p = before @ accept @ after)"
  by (auto simp: shouldDescend_def list_ex_iff sublist_def)

lemma ignored_iff:
  "ignored cfg item p \<longleftrightarrow> type item = ''tree'' \<and> \<not> shouldDescend p (INCLUDE_ONLY cfg)"
  by (auto simp: ignored_def shouldDescend_def includes_str_sublist)

text \<open>
  Claim C2. The child of a folder is ignored exactly when it is a tree and the filter
  predicate rejects its full path; the predicate accepts every path when no term is
  configured, and otherwise accepts exactly the paths in which some term occurs as a
  substring. A blob is downloaded whatever the filter says.
\<close>

theorem descend_predicate:
  "(ignored cfg item p \<longleftrightarrow> type item = ''tree'' \<and> \<not> shouldDescend p (INCLUDE_ONLY cfg)) \<and>
   shouldDescend p [] \<and>
   (filterConfig \<noteq> [] \<longrightarrow>
      (shouldDescend p filterConfig \<longleftrightarrow>
         (\<exists>accept \<in> set filterConfig. \<exists>before after. p = before @ accept @ after))) \<and>
   task recurse cfg w folderPath item =
     (if type item = ''tree'' then
        if shouldDescend (fullPath folderPath item) (INCLUDE_ONLY cfg)
        then recurse (fullPath folderPath item)
        else Some (Ev (Log_ignoring (fullPath folderPath item)))
      else if type item = ''blob'' then Some (downloadFile cfg w (fullPath folderPath item))
      else Some (Seq []))"
  using shouldDescend_iff [of p filterConfig]
  by (auto simp: ignored_iff task_def shouldDescend_def)

theorem descend_predicate_witness:
  "\<not> ignored example_config \<lparr>name = ''docs'', type = ''tree''\<rparr> ''proto/docs'' \<and>
   ignored example_config \<lparr>name = ''other'', type = ''tree''\<rparr> ''proto/other'' \<and>
   \<not> ignored example_config \<lparr>name = ''other'', type = ''blob''\<rparr> ''proto/other'' \<and>
   (\<exists>accept \<in> set [''x'', ''docs'']. \<exists>before after. ''proto/docs'' = before @ accept @ after)"
proof -
  have 1: "[''x'', ''docs''] \<noteq> []" by simp
  have 2: "shouldDescend ''proto/docs'' [''x'', ''docs'']" by code_simp
  have 3: "\<not> shouldDescend ''proto/other'' (INCLUDE_ONLY example_config)"
    unfolding example_config_def by code_simp
  have 4: "shouldDescend ''proto/docs'' (INCLUDE_ONLY example_config)"
    unfolding example_config_def by code_simp
  have a: "\<not> ignored example_config \<lparr>name = ''docs'', type = ''tree''\<rparr> ''proto/docs''"
    using descend_predicate [of example_config "\<lparr>name = ''docs'', type = ''tree''\<rparr>" "''proto/docs''"] 4
    by blast
  have b: "ignored example_config \<lparr>name = ''other'', type = ''tree''\<rparr> ''proto/other''"
    using descend_predicate [of example_config "\<lparr>name = ''other'', type = ''tree''\<rparr>" "''proto/other''"] 3
    by simp
  have c: "\<not> ignored example_config \<lparr>name = ''other'', type = ''blob''\<rparr> ''proto/other''"
    using descend_predicate [of example_config "\<lparr>name = ''other'', type = ''blob''\<rparr>" "''proto/other''"]
    by simp
  have d: "\<exists>accept \<in> set [''x'', ''docs'']. \<exists>before after. ''proto/docs'' = before @ accept @ after"
    using descend_predicate [of _ _ "''proto/docs''" "[''x'', ''docs'']"] 1 2 by blast
  from a b c d show ?thesis by blast
qed

text \<open>
  Claim C9. If a configured term occurs in the path of a folder, it occurs in the path of
  every child, no child is ignored, and no run of the traversal of that folder logs an
  ignored folder at any depth. With a filter configured, every folder that a traversal
  lists below its root has a path in which some term occurs, so none of its children is
  ignored.
\<close>

theorem filter_monotone:
  "(accept \<in> set (INCLUDE_ONLY cfg) \<and> includes_str p accept \<longrightarrow>
      includes_str (fullPath p item) accept \<and>
      \<not> ignored cfg item (fullPath p item) \<and>
      (\<forall>a. downloadFolder fuel cfg w p = Some a \<longrightarrow>
         (\<forall>t \<in> lin a. \<forall>e \<in> set t. \<not> ignoring e))) \<and>
   (\<forall>a. downloadFolder fuel cfg w root = Some a \<longrightarrow>
      (\<forall>t \<in> lin a. \<forall>q. Get_tree q \<in> set t \<and> q \<noteq> root \<and> INCLUDE_ONLY cfg \<noteq> [] \<longrightarrow>
         (\<exists>accept \<in> set (INCLUDE_ONLY cfg). includes_str q accept) \<and>
         (\<forall>child. \<not> ignored cfg child (fullPath q child))))"
proof -
  have 1: "includes_str (fullPath p item) accept \<and>
      \<not> ignored cfg item (fullPath p item) \<and>
      (\<forall>a. downloadFolder fuel cfg w p = Some a \<longrightarrow>
         (\<forall>t \<in> lin a. \<forall>e \<in> set t. \<not> ignoring e))"
    if acc: "accept \<in> set (INCLUDE_ONLY cfg)" and inc: "includes_str p accept"
  proof -
    have sub: "sublist accept p" using inc by (simp add: includes_str_sublist)
    have "\<not> ignoring e" if "downloadFolder fuel cfg w p = Some a" "t \<in> lin a" "e \<in> set t" for a t e
    proof
      assume "ignoring e"
      then obtain q where "e = Log_ignoring q" by (cases e) auto
      moreover have "e \<in> set (flat a)" using that(2,3) lin_set by blast
      ultimately show False using no_ignoring_below [OF that(1) acc sub] by blast
    qed
    then show ?thesis
      using sublist_fullPath [OF sub] not_ignored_below [OF acc sub]
      by (auto simp: includes_str_sublist)
  qed
  have 2: "(\<exists>accept \<in> set (INCLUDE_ONLY cfg). includes_str q accept) \<and>
         (\<forall>child. \<not> ignored cfg child (fullPath q child))"
    if a: "downloadFolder fuel cfg w root = Some a" and t: "t \<in> lin a"
      and q: "Get_tree q \<in> set t \<and> q \<noteq> root \<and> INCLUDE_ONLY cfg \<noteq> []" for a t q
  proof -
    have "Get_tree q \<in> set (flat a)" using q t lin_set by blast
    from listed_matches [OF a this] q obtain accept where
      acc: "accept \<in> set (INCLUDE_ONLY cfg)" "includes_str q accept" by blast
    then have "sublist accept q" by (simp add: includes_str_sublist)
    with acc show ?thesis using not_ignored_below by blast
  qed
  from 1 2 show ?thesis by blast
qed

theorem filter_monotone_witness:
  "includes_str ''proto/docs'' ''docs'' \<and>
   includes_str (fullPath ''proto/docs'' \<lparr>name = ''deep'', type = ''tree''\<rparr>) ''docs'' \<and>
   (\<exists>a. downloadFolder 1 example_config example_world ''proto/docs'' = Some a \<and>
        Get_file ''proto/docs/y.txt'' \<in> set (flat a) \<and>
        Log_ignoring ''proto/docs/y.txt'' \<notin> set (flat a)) \<and>
   (\<exists>a. downloadFolder 2 example_config example_world ''proto'' = Some a \<and>
        Get_tree ''proto/docs'' \<in> set (flat a) \<and>
        \<not> ignored example_config \<lparr>name = ''deep'', type = ''tree''\<rparr>
            (fullPath ''proto/docs'' \<lparr>name = ''deep'', type = ''tree''\<rparr>))"
proof -
  have 1: "''docs'' \<in> set (INCLUDE_ONLY example_config)" by (simp add: example_config_def)
  have 2: "includes_str ''proto/docs'' ''docs''" by code_simp
  have 3: "INCLUDE_ONLY example_config \<noteq> []" by (simp add: example_config_def)
  obtain a where a: "downloadFolder 1 example_config example_world ''proto/docs'' = Some a"
    and g: "Get_file ''proto/docs/y.txt'' \<in> set (flat a)"
    by (simp add: example_world_def example_config_def fetchTree_def task_def
        fullPath_def ignored_def downloadFile_def localPath_def)
  have "flat a \<in> lin a" by (rule flat_in_lin)
  with filter_monotone [of "''docs''" example_config "''proto/docs''"
      "\<lparr>name = ''deep'', type = ''tree''\<rparr>" 1 example_world] 1 2 a
  have i: "includes_str (fullPath ''proto/docs'' \<lparr>name = ''deep'', type = ''tree''\<rparr>) ''docs''"
    and n: "\<forall>e \<in> set (flat a). \<not> ignoring e"
    by auto
  obtain b where b: "downloadFolder 2 example_config example_world ''proto'' = Some b"
    and gb: "Get_tree ''proto/docs'' \<in> set (flat b)"
    by (simp add: example_proto)
  have lb: "flat b \<in> lin b" by (rule flat_in_lin)
  have ne: "''proto/docs'' \<noteq> ''proto''" by simp
  from filter_monotone [of "''docs''" example_config "''proto/docs''"
      "\<lparr>name = ''deep'', type = ''tree''\<rparr>" 2 example_world "''proto''"] b lb gb ne 3
  have "\<not> ignored example_config \<lparr>name = ''deep'', type = ''tree''\<rparr>
            (fullPath ''proto/docs'' \<lparr>name = ''deep'', type = ''tree''\<rparr>)"
    by blast
  with 2 i a g n b gb show ?thesis by force
qed

section \<open>Failures of single requests\<close>

lemma fetchTree_fail_file: "fetchTree (fail_file p w) q = fetchTree w q"
  by (simp add: fetchTree_def fail_file_def)

lemma downloadFile_fail_file:
  "downloadFile cfg (fail_file p w) q =
     (if q = p then Seq [Ev (Get_file p), Ev (Err_download p)] else downloadFile cfg w q)"
  by (auto simp: downloadFile_def localPath_def fail_file_def split: option.splits)

lemma file_gone_refl: "file_gone cfg w p t t"
  by (auto simp: file_gone_def)

lemma file_gone_append:
  "file_gone cfg w p s s' \<Longrightarrow> file_gone cfg w p t t' \<Longrightarrow> file_gone cfg w p (s @ t) (s' @ t')"
  unfolding file_gone_def by (simp add: subset_iff) blast

lemma file_gone_concat:
  "list_all2 (\<lambda>b b'. file_gone cfg w p (flat b) (flat b')) bs bs' \<Longrightarrow>
   file_gone cfg w p (concat (map flat bs)) (concat (map flat bs'))"
  by (induction bs bs' rule: list_all2_induct) (auto simp: file_gone_refl intro: file_gone_append)

lemma file_gone_downloadFile:
  "file_gone cfg w p (flat (downloadFile cfg w q)) (flat (downloadFile cfg (fail_file p w) q))"
  by (auto simp: downloadFile_fail_file file_gone_refl)
     (auto simp: file_gone_def flat_downloadFile split: option.splits)

lemma downloadFolder_fail_file:
  "downloadFolder fuel cfg w q = Some a \<Longrightarrow>
     \<exists>a'. downloadFolder fuel cfg (fail_file p w) q = Some a' \<and>
          file_gone cfg w p (flat a) (flat a')"
proof (induction fuel arbitrary: q a)
  case 0
  then show ?case by simp
next
  case (Suc n)
  let ?w = "fail_file p w"
  from Suc.prems obtain bs where
    bs: "list_all2 (\<lambda>item b. task (downloadFolder n cfg w) cfg w q item = Some b)
           (fst (fetchTree w q)) bs"
    and a: "a = Seq [snd (fetchTree w q), Par bs]"
    unfolding downloadFolder_Suc by blast
  have "\<exists>b'. task (downloadFolder n cfg ?w) cfg ?w q item = Some b' \<and>
          file_gone cfg w p (flat b) (flat b')"
    if "task (downloadFolder n cfg w) cfg w q item = Some b" for item b
  proof (cases "\<not> ignored cfg item (fullPath q item) \<and> type item \<noteq> ''blob'' \<and> type item = ''tree''")
    case True
    with that have "downloadFolder n cfg w (fullPath q item) = Some b" by (simp add: task_def)
    from Suc.IH [OF this] True show ?thesis by (simp add: task_def)
  next
    case False
    with that show ?thesis
      using file_gone_downloadFile [of cfg w p "fullPath q item"]
      by (auto simp: task_def file_gone_refl split: if_splits)
  qed
  with bs obtain bs' where
    bs': "list_all2 (\<lambda>item b'. task (downloadFolder n cfg ?w) cfg ?w q item = Some b')
           (fst (fetchTree w q)) bs'"
    and rel: "list_all2 (\<lambda>b b'. file_gone cfg w p (flat b) (flat b')) bs bs'"
    using list_all2_same_left [of _ "fst (fetchTree w q)" bs
        "\<lambda>item b'. task (downloadFolder n cfg ?w) cfg ?w q item = Some b'"
        "\<lambda>b b'. file_gone cfg w p (flat b) (flat b')"]
    by blast
  have "downloadFolder (Suc n) cfg ?w q = Some (Seq [snd (fetchTree w q), Par bs'])"
    unfolding downloadFolder_Suc fetchTree_fail_file using bs' by blast
  moreover have "file_gone cfg w p (flat a) (flat (Seq [snd (fetchTree w q), Par bs']))"
    using file_gone_append [OF file_gone_refl file_gone_concat [OF rel]] a by simp
  ultimately show ?case by blast
qed

lemma fetchTree_fail_tree:
  "fetchTree (fail_tree p w) q =
     (if q = p then ([], Seq [Ev (Get_tree p), Ev (Err_tree p)]) else fetchTree w q)"
  by (simp add: fetchTree_def fail_tree_def)

lemma downloadFile_fail_tree: "downloadFile cfg (fail_tree p w) q = downloadFile cfg w q"
  by (auto simp: downloadFile_def localPath_def fail_tree_def split: option.splits)

lemma subtree_gone_refl: "subtree_gone cfg w p a a"
  by (auto simp: subtree_gone_def)

lemma subtree_gone_children:
  assumes "list_all2 (subtree_gone cfg w p) bs bs'"
  shows "subtree_gone cfg w p (Seq [l, Par bs]) (Seq [l, Par bs'])"
proof -
  have 1: "set (flat (Seq [l, Par bs'])) \<subseteq> set (flat (Seq [l, Par bs])) \<union> {Err_tree p}"
    using assms
    by (induction bs bs' rule: list_all2_induct) (auto simp: subtree_gone_def)
  have 2: "bs' = bs" if "Get_tree p \<notin> set (flat (Seq [l, Par bs]))"
    using assms that
    by (induction bs bs' rule: list_all2_induct) (auto simp: subtree_gone_def)
  have 3: "set (flat (Seq [l, Par bs])) \<subseteq> set (flat (Seq [l, Par bs'])) \<union> set (flat b)"
    if b: "downloadFolder m cfg w p = Some b" for m b
  proof
    fix e
    assume "e \<in> set (flat (Seq [l, Par bs]))"
    then consider "e \<in> set (flat l)" | x where "x \<in> set bs" "e \<in> set (flat x)" by auto
    then show "e \<in> set (flat (Seq [l, Par bs'])) \<union> set (flat b)"
    proof cases
      case 1
      then show ?thesis by simp
    next
      case 2
      from list_all2_left [OF assms 2(1)] obtain y where
        y: "y \<in> set bs'" "subtree_gone cfg w p x y" by blast
      from y(2) b have "set (flat x) \<subseteq> set (flat y) \<union> set (flat b)"
        unfolding subtree_gone_def by blast
      with 2(2) y(1) show ?thesis by auto
    qed
  qed
  show ?thesis
    unfolding subtree_gone_def using 1 2 3 by blast
qed

lemma downloadFolder_fail_tree:
  "downloadFolder fuel cfg w q = Some a \<Longrightarrow>
     \<exists>a'. downloadFolder fuel cfg (fail_tree p w) q = Some a' \<and> subtree_gone cfg w p a a'"
proof (induction fuel arbitrary: q a)
  case 0
  then show ?case by simp
next
  case (Suc n)
  let ?w = "fail_tree p w"
  show ?case
  proof (cases "q = p")
    case True
    let ?a = "Seq [Seq [Ev (Get_tree p), Ev (Err_tree p)], Par []]"
    have "downloadFolder (Suc n) cfg ?w q = Some ?a"
      unfolding downloadFolder_Suc using True by (simp add: fetchTree_fail_tree)
    moreover have "Get_tree p \<in> set (flat a)"
      using Suc.prems True root_listed by blast
    moreover have "b = a" if "downloadFolder m cfg w p = Some b" for m b
      using that Suc.prems True downloadFolder_unique by blast
    ultimately show ?thesis
      by (auto simp: subtree_gone_def)
  next
    case False
    from Suc.prems obtain bs where
      bs: "list_all2 (\<lambda>item b. task (downloadFolder n cfg w) cfg w q item = Some b)
             (fst (fetchTree w q)) bs"
      and a: "a = Seq [snd (fetchTree w q), Par bs]"
      unfolding downloadFolder_Suc by blast
    have "\<exists>b'. task (downloadFolder n cfg ?w) cfg ?w q item = Some b' \<and> subtree_gone cfg w p b b'"
      if "task (downloadFolder n cfg w) cfg w q item = Some b" for item b
    proof (cases "\<not> ignored cfg item (fullPath q item) \<and> type item \<noteq> ''blob'' \<and> type item = ''tree''")
      case True
      with that have "downloadFolder n cfg w (fullPath q item) = Some b" by (simp add: task_def)
      from Suc.IH [OF this] True show ?thesis by (simp add: task_def)
    next
      case False
      with that show ?thesis
        by (auto simp: task_def subtree_gone_refl downloadFile_fail_tree split: if_splits)
    qed
    with bs obtain bs' where
      bs': "list_all2 (\<lambda>item b'. task (downloadFolder n cfg ?w) cfg ?w q item = Some b')
             (fst (fetchTree w q)) bs'"
      and rel: "list_all2 (subtree_gone cfg w p) bs bs'"
      using list_all2_same_left [of _ "fst (fetchTree w q)" bs
          "\<lambda>item b'. task (downloadFolder n cfg ?w) cfg ?w q item = Some b'"
          "subtree_gone cfg w p"]
      by blast
    have ft: "fetchTree ?w q = fetchTree w q"
      using False by (simp add: fetchTree_fail_tree)
    have "downloadFolder (Suc n) cfg ?w q = Some (Seq [snd (fetchTree w q), Par bs'])"
      unfolding downloadFolder_Suc ft using bs' by blast
    moreover have "subtree_gone cfg w p a (Seq [snd (fetchTree w q), Par bs'])"
      unfolding a using rel by (rule subtree_gone_children)
    ultimately show ?thesis by blast
  qed
qed

text \<open>
  Claim C4. A listing that fails yields no children and the logged error; a file request
  that fails yields the logged error and no write. Making the request for one file fail
  changes nothing else in a traversal: it still returns, every run makes the same remote
  calls, nothing new happens but the error for that file, and every other event still
  occurs, the only ones that may be lost being the write and the success message at that
  file's local path. Making the listing of one folder fail changes nothing else either:
  the traversal still returns, nothing new happens but the error for that folder, the
  behaviour is the same if the folder is never listed, and every event that is lost
  belongs to the traversal of that folder itself.
\<close>

theorem failures_are_isolated:
  "(tree_response w p = None \<longrightarrow>
      fetchTree w p = ([], Seq [Ev (Get_tree p), Ev (Err_tree p)])) \<and>
   (raw_response w p = None \<longrightarrow>
      downloadFile cfg w p = Seq [Ev (Get_file p), Ev (Err_download p)]) \<and>
   (\<forall>a. downloadFolder fuel cfg w root = Some a \<longrightarrow>
      (\<exists>a'. downloadFolder fuel cfg (fail_file p w) root = Some a' \<and>
         (\<forall>t \<in> lin a. \<forall>t' \<in> lin a'.
            mset (filter remote_call t') = mset (filter remote_call t) \<and>
            set t' \<subseteq> set t \<union> {Err_download p} \<and>
            (\<forall>e \<in> set t. e \<in> set t' \<or> (\<exists>d. e = Output_file (localPath cfg w p) d) \<or>
               e = Log_downloaded (localPath cfg w p)))) \<and>
      (\<exists>a'. downloadFolder fuel cfg (fail_tree p w) root = Some a' \<and>
         (Get_tree p \<notin> set (flat a) \<longrightarrow> a' = a) \<and>
         (\<forall>t \<in> lin a. \<forall>t' \<in> lin a'.
            set t' \<subseteq> set t \<union> {Err_tree p} \<and>
            (\<forall>m b. downloadFolder m cfg w p = Some b \<longrightarrow> set t \<subseteq> set t' \<union> set (flat b)))))"
proof -
  have 1: "tree_response w p = None \<longrightarrow>
      fetchTree w p = ([], Seq [Ev (Get_tree p), Ev (Err_tree p)])"
    by (simp add: fetchTree_def)
  have 2: "raw_response w p = None \<longrightarrow>
      downloadFile cfg w p = Seq [Ev (Get_file p), Ev (Err_download p)]"
    by (simp add: downloadFile_def)
  have 3: "\<exists>a'. downloadFolder fuel cfg (fail_file p w) root = Some a' \<and>
         (\<forall>t \<in> lin a. \<forall>t' \<in> lin a'.
            mset (filter remote_call t') = mset (filter remote_call t) \<and>
            set t' \<subseteq> set t \<union> {Err_download p} \<and>
            (\<forall>e \<in> set t. e \<in> set t' \<or> (\<exists>d. e = Output_file (localPath cfg w p) d) \<or>
               e = Log_downloaded (localPath cfg w p)))"
    if a: "downloadFolder fuel cfg w root = Some a" for a
  proof -
    from downloadFolder_fail_file [OF a] obtain a' where
      a': "downloadFolder fuel cfg (fail_file p w) root = Some a'"
      and g: "file_gone cfg w p (flat a) (flat a')"
      by blast
    have "mset (filter remote_call t') = mset (filter remote_call t) \<and>
            set t' \<subseteq> set t \<union> {Err_download p} \<and>
            (\<forall>e \<in> set t. e \<in> set t' \<or> (\<exists>d. e = Output_file (localPath cfg w p) d) \<or>
               e = Log_downloaded (localPath cfg w p))"
      if "t \<in> lin a" "t' \<in> lin a'" for t t'
    proof -
      have m: "mset t = mset (flat a)" "mset t' = mset (flat a')"
        using that by (simp_all add: lin_mset)
      then have s: "set t = set (flat a)" "set t' = set (flat a')"
        by (metis set_mset_mset)+
      have f: "mset (filter remote_call t') = mset (filter remote_call (flat a'))"
        "mset (filter remote_call t) = mset (filter remote_call (flat a))"
        using m by (metis mset_filter)+
      from g have g1: "filter remote_call (flat a') = filter remote_call (flat a)"
        and g2: "set (flat a') \<subseteq> set (flat a) \<union> {Err_download p}"
        and g3: "\<forall>e \<in> set (flat a). e \<in> set (flat a') \<or>
                  (\<exists>d. e = Output_file (localPath cfg w p) d) \<or>
                  e = Log_downloaded (localPath cfg w p)"
        unfolding file_gone_def by blast+
      from f g1 have "mset (filter remote_call t') = mset (filter remote_call t)" by simp
      with g2 g3 show ?thesis unfolding s by blast
    qed
    with a' show ?thesis by blast
  qed
  have 4: "\<exists>a'. downloadFolder fuel cfg (fail_tree p w) root = Some a' \<and>
         (Get_tree p \<notin> set (flat a) \<longrightarrow> a' = a) \<and>
         (\<forall>t \<in> lin a. \<forall>t' \<in> lin a'.
            set t' \<subseteq> set t \<union> {Err_tree p} \<and>
            (\<forall>m b. downloadFolder m cfg w p = Some b \<longrightarrow> set t \<subseteq> set t' \<union> set (flat b)))"
    if a: "downloadFolder fuel cfg w root = Some a" for a
  proof -
    from downloadFolder_fail_tree [OF a] obtain a' where
      a': "downloadFolder fuel cfg (fail_tree p w) root = Some a'"
      and g: "subtree_gone cfg w p a a'"
      by blast
    have r: "set t' \<subseteq> set t \<union> {Err_tree p} \<and>
            (\<forall>m b. downloadFolder m cfg w p = Some b \<longrightarrow> set t \<subseteq> set t' \<union> set (flat b))"
      if "t \<in> lin a" "t' \<in> lin a'" for t t'
    proof -
      have s: "set t = set (flat a)" "set t' = set (flat a')"
        using that by (simp_all add: lin_set)
      from g show ?thesis unfolding subtree_gone_def s by blast
    qed
    have n: "Get_tree p \<notin> set (flat a) \<longrightarrow> a' = a"
      using g unfolding subtree_gone_def by blast
    show ?thesis
      by (intro exI [of _ a'] conjI ballI a' n) (rule r [THEN conjunct1], assumption+,
          rule r [THEN conjunct2], assumption+)
  qed
  from 3 4 have 5: "\<forall>a. downloadFolder fuel cfg w root = Some a \<longrightarrow>
      (\<exists>a'. downloadFolder fuel cfg (fail_file p w) root = Some a' \<and>
         (\<forall>t \<in> lin a. \<forall>t' \<in> lin a'.
            mset (filter remote_call t') = mset (filter remote_call t) \<and>
            set t' \<subseteq> set t \<union> {Err_download p} \<and>
            (\<forall>e \<in> set t. e \<in> set t' \<or> (\<exists>d. e = Output_file (localPath cfg w p) d) \<or>
               e = Log_downloaded (localPath cfg w p)))) \<and>
      (\<exists>a'. downloadFolder fuel cfg (fail_tree p w) root = Some a' \<and>
         (Get_tree p \<notin> set (flat a) \<longrightarrow> a' = a) \<and>
         (\<forall>t \<in> lin a. \<forall>t' \<in> lin a'.
            set t' \<subseteq> set t \<union> {Err_tree p} \<and>
            (\<forall>m b. downloadFolder m cfg w p = Some b \<longrightarrow> set t \<subseteq> set t' \<union> set (flat b))))"
    by (intro allI impI conjI)
  show ?thesis by (rule conjI [OF 1 conjI [OF 2 5]])
qed

theorem failures_are_isolated_witness:
  "\<exists>a a' a''.
     downloadFolder 2 example_config example_world ''proto'' = Some a \<and>
     downloadFolder 2 example_config (fail_file ''proto/docs/y.txt'' example_world) ''proto'' = Some a' \<and>
     downloadFolder 2 example_config (fail_tree ''proto/docs'' example_world) ''proto'' = Some a'' \<and>
     Output_file ''/home/out/proto/docs/y.txt'' [1, 2, 3] \<in> set (flat a) \<and>
     Output_file ''/home/out/proto/a.proto'' [1, 2, 3] \<in> set (flat a') \<and>
     Output_file ''/home/out/proto/a.proto'' [1, 2, 3] \<in> set (flat a'')"
proof -
  let ?e = "Output_file ''/home/out/proto/a.proto'' [1, 2, 3]"
  obtain a where a: "downloadFolder 2 example_config example_world ''proto'' = Some a"
    and y: "Output_file ''/home/out/proto/docs/y.txt'' [1, 2, 3] \<in> set (flat a)"
    and e: "?e \<in> set (flat a)"
    by (simp add: example_proto)
  have l: "flat a \<in> lin a" by (rule flat_in_lin)
  have lp: "localPath example_config example_world ''proto/docs/y.txt'' = ''/home/out/proto/docs/y.txt''"
    by (simp add: localPath_def example_world_def example_config_def)
  obtain b where b: "downloadFolder 1 example_config example_world ''proto/docs'' = Some b"
    and nb: "?e \<notin> set (flat b)"
    by (simp add: example_world_def example_config_def fetchTree_def task_def
        fullPath_def ignored_def downloadFile_def localPath_def)
  from failures_are_isolated [of example_world "''proto/docs/y.txt''" example_config 2 "''proto''"] a
  obtain a' where a': "downloadFolder 2 example_config (fail_file ''proto/docs/y.txt'' example_world) ''proto'' = Some a'"
    and r: "\<forall>t \<in> lin a. \<forall>t' \<in> lin a'.
            mset (filter remote_call t') = mset (filter remote_call t) \<and>
            set t' \<subseteq> set t \<union> {Err_download ''proto/docs/y.txt''} \<and>
            (\<forall>e \<in> set t. e \<in> set t' \<or>
               (\<exists>d. e = Output_file (localPath example_config example_world ''proto/docs/y.txt'') d) \<or>
               e = Log_downloaded (localPath example_config example_world ''proto/docs/y.txt''))"
    by blast
  have l': "flat a' \<in> lin a'" by (rule flat_in_lin)
  from r l l' e have 1: "?e \<in> set (flat a')" unfolding lp by fastforce
  from failures_are_isolated [of example_world "''proto/docs''" example_config 2 "''proto''"] a
  obtain a'' where a'': "downloadFolder 2 example_config (fail_tree ''proto/docs'' example_world) ''proto'' = Some a''"
    and r': "\<forall>t \<in> lin a. \<forall>t' \<in> lin a''.
            set t' \<subseteq> set t \<union> {Err_tree ''proto/docs''} \<and>
            (\<forall>m b. downloadFolder m example_config example_world ''proto/docs'' = Some b \<longrightarrow>
               set t \<subseteq> set t' \<union> set (flat b))"
    by blast
  have l'': "flat a'' \<in> lin a''" by (rule flat_in_lin)
  from r' l l'' b have "set (flat a) \<subseteq> set (flat a'') \<union> set (flat b)" by blast
  with e nb have 2: "?e \<in> set (flat a'')" by blast
  from a a' a'' y 1 2 show ?thesis by blast
qed

section \<open>Paths and destinations\<close>

text \<open>
  Claim C6. The full path of a child is the folder path, a slash and the child's name, or
  the name alone under the empty path. In every run of a traversal, each child of each
  listed folder is handled under that full path; every folder listed other than the root
  is the full path of a listed tree, and every file request is for the full path of a
  listed blob; every local write is \<^verbatim>\<open>fs.outputFile\<close> (which creates the missing
  directories) on \<^verbatim>\<open>path.join\<close> of the working directory, the download directory and the
  full path of a requested file, with the bytes the server answered; and every file that
  was fetched is written there, unless the write itself fails.
\<close>

theorem paths_and_destinations:
  assumes a: "downloadFolder fuel cfg w root = Some a" and t: "t \<in> lin a"
  shows "fullPath folderPath child =
           (if folderPath = [] then name child else folderPath @ ''/'' @ name child) \<and>
         (\<forall>q. Get_tree q \<in> set t \<longrightarrow>
            (\<forall>item \<in> set (fst (fetchTree w q)).
               (ignored cfg item (fullPath q item) \<longrightarrow> Log_ignoring (fullPath q item) \<in> set t) \<and>
               (\<not> ignored cfg item (fullPath q item) \<and> type item = ''blob'' \<longrightarrow>
                  Get_file (fullPath q item) \<in> set t) \<and>
               (\<not> ignored cfg item (fullPath q item) \<and> type item = ''tree'' \<longrightarrow>
                  Get_tree (fullPath q item) \<in> set t))) \<and>
         (\<forall>q. Get_tree q \<in> set t \<longrightarrow>
            q = root \<or>
            (\<exists>parent item. Get_tree parent \<in> set t \<and>
               item \<in> set (fst (fetchTree w parent)) \<and>
               type item = ''tree'' \<and> q = fullPath parent item)) \<and>
         (\<forall>p. Get_file p \<in> set t \<longrightarrow>
            (\<exists>q item. Get_tree q \<in> set t \<and> item \<in> set (fst (fetchTree w q)) \<and>
               type item = ''blob'' \<and> p = fullPath q item)) \<and>
         (\<forall>lp d. Output_file lp d \<in> set t \<longrightarrow>
            (\<exists>p. Get_file p \<in> set t \<and> raw_response w p = Some d \<and>
                 lp = path_join w [cwd w, DOWNLOAD_DIR cfg, p])) \<and>
         (\<forall>p d. Get_file p \<in> set t \<and> raw_response w p = Some d \<and>
                outputFile_ok w (path_join w [cwd w, DOWNLOAD_DIR cfg, p]) \<longrightarrow>
            Output_file (path_join w [cwd w, DOWNLOAD_DIR cfg, p]) d \<in> set t)"
proof -
  have st: "set t = set (flat a)" using t by (rule lin_set)
  have 1: "fullPath folderPath child =
           (if folderPath = [] then name child else folderPath @ ''/'' @ name child)"
    by (simp add: fullPath_def)
  have 2: "(ignored cfg item (fullPath q item) \<longrightarrow> Log_ignoring (fullPath q item) \<in> set t) \<and>
           (\<not> ignored cfg item (fullPath q item) \<and> type item = ''blob'' \<longrightarrow>
              Get_file (fullPath q item) \<in> set t) \<and>
           (\<not> ignored cfg item (fullPath q item) \<and> type item = ''tree'' \<longrightarrow>
              Get_tree (fullPath q item) \<in> set t)"
    if "Get_tree q \<in> set t" "item \<in> set (fst (fetchTree w q))" for q item
  proof -
    have "Get_file (fullPath q item) \<in> set (flat (downloadFile cfg w (fullPath q item)))"
      by (simp add: flat_downloadFile split: option.splits)
    then show ?thesis
      using children_handled [OF a _ that(2)] that(1) st by blast
  qed
  have origin: "\<exists>q item. Get_tree q \<in> set t \<and> item \<in> set (fst (fetchTree w q)) \<and>
      type item = ''blob'' \<and> \<not> ignored cfg item (fullPath q item) \<and>
      e \<in> set (flat (downloadFile cfg w (fullPath q item)))"
    if "e \<in> set t" "\<forall>q. e \<noteq> Get_tree q \<and> e \<noteq> Err_tree q \<and> e \<noteq> Log_ignoring q" for e
    using event_origin [OF a, of e] that st by blast
  have 3: "\<exists>q item. Get_tree q \<in> set t \<and> item \<in> set (fst (fetchTree w q)) \<and>
               type item = ''blob'' \<and> p = fullPath q item"
    if "Get_file p \<in> set t" for p
  proof -
    from origin [OF that] obtain q item where
      qi: "Get_tree q \<in> set t" "item \<in> set (fst (fetchTree w q))" "type item = ''blob''"
      and e: "Get_file p \<in> set (flat (downloadFile cfg w (fullPath q item)))"
      by auto
    from e have "p = fullPath q item"
      by (auto simp: flat_downloadFile split: option.splits if_splits)
    with qi show ?thesis by blast
  qed
  have 4: "\<exists>p. Get_file p \<in> set t \<and> raw_response w p = Some d \<and>
                 lp = path_join w [cwd w, DOWNLOAD_DIR cfg, p]"
    if "Output_file lp d \<in> set t" for lp d
  proof -
    from origin [OF that] obtain q item where
      qi: "Get_tree q \<in> set t" "item \<in> set (fst (fetchTree w q))" "type item = ''blob''"
        "\<not> ignored cfg item (fullPath q item)"
      and e: "Output_file lp d \<in> set (flat (downloadFile cfg w (fullPath q item)))"
      by auto
    from e have "raw_response w (fullPath q item) = Some d"
      and "lp = path_join w [cwd w, DOWNLOAD_DIR cfg, fullPath q item]"
      by (auto simp: flat_downloadFile localPath_def split: option.splits if_splits)
    moreover have "Get_file (fullPath q item) \<in> set t"
      using 2 [OF qi(1,2)] qi(3,4) by blast
    ultimately show ?thesis by blast
  qed
  have 5: "Output_file (path_join w [cwd w, DOWNLOAD_DIR cfg, p]) d \<in> set t"
    if "Get_file p \<in> set t" "raw_response w p = Some d"
      "outputFile_ok w (path_join w [cwd w, DOWNLOAD_DIR cfg, p])" for p d
  proof -
    from origin [OF that(1)] obtain q item where
      qi: "Get_tree q \<in> set t" "item \<in> set (fst (fetchTree w q))" "type item = ''blob''"
        "\<not> ignored cfg item (fullPath q item)"
      and e: "Get_file p \<in> set (flat (downloadFile cfg w (fullPath q item)))"
      by auto
    from e have p: "p = fullPath q item"
      by (auto simp: flat_downloadFile split: option.splits if_splits)
    have "set (flat (downloadFile cfg w p)) \<subseteq> set t"
      using children_handled [OF a _ qi(2)] qi(1,3,4) st p by blast
    moreover have "Output_file (path_join w [cwd w, DOWNLOAD_DIR cfg, p]) d
        \<in> set (flat (downloadFile cfg w p))"
      using that(2,3) by (simp add: flat_downloadFile localPath_def)
    ultimately show ?thesis by blast
  qed
  have 6: "q = root \<or>
            (\<exists>parent item. Get_tree parent \<in> set t \<and>
               item \<in> set (fst (fetchTree w parent)) \<and>
               type item = ''tree'' \<and> q = fullPath parent item)"
    if "Get_tree q \<in> set t" for q
    using listed_origin [OF a, of q] that st by blast
  show ?thesis using 1 2 3 4 5 6 by blast
qed

theorem paths_and_destinations_witness:
  "\<exists>a. downloadFolder 2 example_config example_world ''proto'' = Some a \<and> flat a \<in> lin a \<and>
       fullPath ''proto/docs'' \<lparr>name = ''y.txt'', type = ''blob''\<rparr> = ''proto/docs/y.txt'' \<and>
       fullPath [] \<lparr>name = ''proto'', type = ''tree''\<rparr> = ''proto'' \<and>
       Get_file ''proto/docs/y.txt'' \<in> set (flat a) \<and>
       Output_file ''/home/out/proto/docs/y.txt'' [1, 2, 3] \<in> set (flat a)"
proof -
  obtain a where a: "downloadFolder 2 example_config example_world ''proto'' = Some a"
    and g: "Get_file ''proto/docs/y.txt'' \<in> set (flat a)"
    by (simp add: example_proto)
  have l: "flat a \<in> lin a" by (rule flat_in_lin)
  have r: "raw_response example_world ''proto/docs/y.txt'' = Some [1, 2, 3]"
    by (simp add: example_world_def)
  have j: "path_join example_world [cwd example_world, DOWNLOAD_DIR example_config, ''proto/docs/y.txt'']
           = ''/home/out/proto/docs/y.txt''"
    by (simp add: example_world_def example_config_def)
  have ok: "outputFile_ok example_world
              (path_join example_world [cwd example_world, DOWNLOAD_DIR example_config, ''proto/docs/y.txt''])"
    by (simp add: example_world_def)
  from paths_and_destinations [OF a l, of "''proto/docs''" "\<lparr>name = ''y.txt'', type = ''blob''\<rparr>"]
  have 1: "fullPath ''proto/docs'' \<lparr>name = ''y.txt'', type = ''blob''\<rparr> = ''proto/docs/y.txt''"
    and 5: "\<forall>p d. Get_file p \<in> set (flat a) \<and> raw_response example_world p = Some d \<and>
                outputFile_ok example_world
                  (path_join example_world [cwd example_world, DOWNLOAD_DIR example_config, p]) \<longrightarrow>
            Output_file (path_join example_world [cwd example_world, DOWNLOAD_DIR example_config, p]) d
              \<in> set (flat a)"
    by simp_all
  from paths_and_destinations [OF a l, of "[]" "\<lparr>name = ''proto'', type = ''tree''\<rparr>"]
  have 2: "fullPath [] \<lparr>name = ''proto'', type = ''tree''\<rparr> = ''proto''"
    by simp
  from 5 g r ok have "Output_file ''/home/out/proto/docs/y.txt'' [1, 2, 3] \<in> set (flat a)"
    unfolding j [symmetric] by blast
  with a l 1 2 g show ?thesis by blast
qed

section \<open>The parallel and the sequential traversal\<close>

lemma sequential_downloadFile: "sequential (downloadFile cfg w p) = downloadFile cfg w p"
  by (simp add: downloadFile_def split: option.splits)

lemma sequential_fetchTree: "sequential (snd (fetchTree w p)) = snd (fetchTree w p)"
  by (simp add: fetchTree_def split: option.splits)

lemma task_map_option:
  "task (\<lambda>q. map_option sequential (recurse q)) cfg w p item =
     map_option sequential (task recurse cfg w p item)"
  by (simp add: task_def sequential_downloadFile)

lemma downloadFolder_seq_sequential:
  "downloadFolder_seq fuel cfg w p = map_option sequential (downloadFolder fuel cfg w p)"
proof (induction fuel arbitrary: p)
  case 0
  show ?case by simp
next
  case (Suc n)
  obtain items listing where ft: "fetchTree w p = (items, listing)"
    by (cases "fetchTree w p")
  have sl: "sequential listing = listing"
    using sequential_fetchTree [of w p] ft by simp
  have "downloadFolder_seq n cfg w = (\<lambda>q. map_option sequential (downloadFolder n cfg w q))"
    using Suc.IH by auto
  then have "map (task (downloadFolder_seq n cfg w) cfg w p) items =
      map (\<lambda>item. map_option sequential (task (downloadFolder n cfg w) cfg w p item)) items"
    by (simp add: task_map_option)
  then have "those (map (task (downloadFolder_seq n cfg w) cfg w p) items) =
      map_option (map sequential) (those (map (task (downloadFolder n cfg w) cfg w p) items))"
    by (simp only: those_map_map_option)
  then show ?case
    by (simp add: ft sl option.map_comp comp_def)
qed

text \<open>
  Claim C10. On the same server answers, filter and destination, the sequential traversal
  is the parallel one with every \<^verbatim>\<open>Promise.all\<close> replaced by awaiting the tasks in order:
  one returns exactly when the other does, the sequential traversal has one run, which is
  also a run of the parallel traversal, and every run of the parallel traversal has the
  same events as that run, so both write the same local paths with the same bytes.
\<close>

theorem parallel_sequential_equivalent:
  "downloadFolder_seq fuel cfg w root = map_option sequential (downloadFolder fuel cfg w root) \<and>
   (downloadFolder fuel cfg w root = None \<longleftrightarrow> downloadFolder_seq fuel cfg w root = None) \<and>
   (\<forall>a b. downloadFolder fuel cfg w root = Some a \<and> downloadFolder_seq fuel cfg w root = Some b \<longrightarrow>
      lin b = {flat a} \<and> flat a \<in> lin a \<and>
      (\<forall>t \<in> lin a. \<forall>s \<in> lin b. mset t = mset s \<and> written t = written s))"
proof -
  have eq: "downloadFolder_seq fuel cfg w root = map_option sequential (downloadFolder fuel cfg w root)"
    by (rule downloadFolder_seq_sequential)
  have "lin b = {flat a} \<and> flat a \<in> lin a \<and>
      (\<forall>t \<in> lin a. \<forall>s \<in> lin b. mset t = mset s \<and> written t = written s)"
    if "downloadFolder fuel cfg w root = Some a" "downloadFolder_seq fuel cfg w root = Some b" for a b
  proof -
    from that eq have b: "b = sequential a" by simp
    then have lb: "lin b = {flat a}" by (simp add: lin_sequential)
    have "mset t = mset s \<and> written t = written s" if "t \<in> lin a" "s \<in> lin b" for t s
    proof -
      from that(2) lb have "s = flat a" by simp
      moreover have "mset t = mset (flat a)" using that(1) by (rule lin_mset)
      moreover have "set t = set (flat a)" using that(1) by (rule lin_set)
      ultimately show ?thesis by (simp add: written_def)
    qed
    with lb flat_in_lin [of a] show ?thesis by blast
  qed
  moreover have "downloadFolder fuel cfg w root = None \<longleftrightarrow> downloadFolder_seq fuel cfg w root = None"
    using eq by simp
  ultimately show ?thesis using eq by blast
qed

theorem parallel_sequential_equivalent_witness:
  "\<exists>a b. downloadFolder 2 example_config example_world ''proto'' = Some a \<and>
         downloadFolder_seq 2 example_config example_world ''proto'' = Some b \<and>
         lin b = {flat a} \<and>
         written (flat b) =
           {(''/home/out/proto/docs/y.txt'', [1, 2, 3]), (''/home/out/proto/a.proto'', [1, 2, 3])}"
proof -
  obtain a where a: "downloadFolder 2 example_config example_world ''proto'' = Some a"
    and wa: "written (flat a) =
           {(''/home/out/proto/docs/y.txt'', [1, 2, 3]), (''/home/out/proto/a.proto'', [1, 2, 3])}"
    by (auto simp: example_proto written_def)
  from parallel_sequential_equivalent [of 2 example_config example_world "''proto''"] a
  obtain b where b: "downloadFolder_seq 2 example_config example_world ''proto'' = Some b"
    by auto
  from parallel_sequential_equivalent [of 2 example_config example_world "''proto''"] a b
  have l: "lin b = {flat a}"
    and "\<forall>t \<in> lin a. \<forall>s \<in> lin b. mset t = mset s \<and> written t = written s"
    by blast+
  moreover have "flat a \<in> lin a" "flat b \<in> lin b" by (rule flat_in_lin)+
  ultimately have "written (flat a) = written (flat b)" by blast
  with a b l wa show ?thesis by auto
qed

section \<open>Properties of the fingerprint\<close>

subsection \<open>Test values\<close>

text \<open>The digest of the first test message of the standard.\<close>

lemma sha256_abc:
  "sha256_hex ''abc'' = ''ba7816bf8f01cfea414140de5dae2223b00361a396177a9cb410ff61f20015ad''"
  by code_simp

text \<open>
  The text that is hashed for a small configuration, and the fingerprints of the sample
  configuration and of four variants of it.
\<close>

lemma argsString_example:
  "argsString \<lparr> GITLAB_HOST = ''h'', TOKEN = ''t'', PROJECT_ID = ''12'', BRANCH = ''master'',
                DOWNLOAD_DIR = [], INCLUDE_ONLY = [''a'', ''b c''] \<rparr> =
     ''{'' @ json_string ''PROJECT_ID'' @ '':'' @ json_string ''12'' @ '','' @
     json_string ''BRANCH'' @ '':'' @ json_string ''master'' @ '','' @
     json_string ''INCLUDE_ONLY'' @ '':['' @ json_string ''a'' @ '','' @ json_string ''b c'' @ ''],'' @
     json_string ''DOWNLOAD_DIR'' @ '':'' @ json_string [] @ ''}''"
  by (simp add: argsString_def json_key_def)






subsection \<open>The serialization is injective\<close>














end
